theory Spec2Isabelle
  imports
    Main
    "HOL-Library.Char_ord"
    "HOL-Library.List_Lexorder"
    "HOL-Library.Product_Lexorder"
    "HOL-Library.AList"
    "HOL-Library.Multiset"
begin

section \<open>Python values used by fmindex.py\<close>

text \<open>
  Python integers are unbounded, so offsets and row numbers are \<^typ>\<open>int\<close>.  A string is a
  list of characters, compared as Python compares them: character by character, a proper
  prefix being smaller.  A dict is an association list in insertion order with distinct keys;
  \<^const>\<open>AList.update\<close> is the assignment \<^verbatim>\<open>d[k] = v\<close> and \<^const>\<open>map_of\<close> the lookup.
  A subscript that raises \<^verbatim>\<open>IndexError\<close> is the value \<^const>\<open>None\<close>.
\<close>

definition py_index :: "'a list \<Rightarrow> int \<Rightarrow> 'a option" where
  \<comment> \<open>\<^verbatim>\<open>xs[i]\<close>: a negative subscript counts from the end, anything out of range raises.\<close>
  "py_index xs i =
     (let n = int (length xs); j = (if i < 0 then i + n else i)
      in if 0 \<le> j \<and> j < n then Some (xs ! nat j) else None)"

definition py_bound :: "'a list \<Rightarrow> int \<Rightarrow> nat" where
  \<comment> \<open>How a slice bound is clipped to the list.\<close>
  "py_bound xs a =
     (let n = int (length xs) in nat (if a < 0 then max 0 (a + n) else min a n))"

definition py_slice :: "'a list \<Rightarrow> int \<Rightarrow> int \<Rightarrow> 'a list" where
  \<comment> \<open>\<^verbatim>\<open>xs[a:b]\<close>; never raises.\<close>
  "py_slice xs a b = take (py_bound xs b - py_bound xs a) (drop (py_bound xs a) xs)"

definition py_slice_from :: "'a list \<Rightarrow> int \<Rightarrow> 'a list" where
  \<comment> \<open>\<^verbatim>\<open>xs[a:]\<close>\<close>
  "py_slice_from xs a = drop (py_bound xs a) xs"

definition py_range :: "int \<Rightarrow> int \<Rightarrow> int list" where
  \<comment> \<open>\<^verbatim>\<open>range(a, b)\<close>\<close>
  "py_range a b = map (\<lambda>k. a + int k) [0..<nat (b - a)]"

section \<open>The count table\<close>

definition Counter :: "'a list \<Rightarrow> ('a \<times> int) list" where
  \<comment> \<open>\<^verbatim>\<open>collections.Counter(letters)\<close>: one entry per distinct element, in order of first
      occurrence.\<close>
  "Counter letters =
     fold (\<lambda>x d. AList.update x (case map_of d x of None \<Rightarrow> 1 | Some v \<Rightarrow> v + 1) d) letters []"

fun n_less_than_loop ::
  "('a \<times> int) list \<Rightarrow> int \<Rightarrow> ('a \<times> int) list \<Rightarrow> ('a \<times> int) list" where
  "n_less_than_loop [] lower_char_count n_occurring_lower_letters = n_occurring_lower_letters"
| "n_less_than_loop ((key, val) # rest) lower_char_count n_occurring_lower_letters =
     n_less_than_loop rest (lower_char_count + val)
       (AList.update key lower_char_count n_occurring_lower_letters)"

definition n_less_than :: "'a::linorder list \<Rightarrow> ('a \<times> int) list" where
  "n_less_than letters = n_less_than_loop (sort (Counter letters)) 0 []"

section \<open>The suffix array\<close>

definition create_suffix_array_naive :: "string \<Rightarrow> int list" where
  "create_suffix_array_naive txt =
     sort_key (\<lambda>x. py_slice_from txt x) (py_range 0 (int (length txt)))"

section \<open>The rank structure\<close>

text \<open>
  The module \<^verbatim>\<open>t_rank\<close> is imported by fmindex.py and is not among the sources.  Its
  class \<^verbatim>\<open>TRank\<close> is therefore a parameter of the model: a rank object is the function
  its method \<^verbatim>\<open>rank_at_row(c, row)\<close> computes, and the constructor
  \<^verbatim>\<open>TRank(bwt, characters)\<close> is an argument of index construction.  The theorems about
  the index hold for every constructor unless they name one.
\<close>

type_synonym TRank = "char \<Rightarrow> int \<Rightarrow> int"

definition rank_at_row :: "TRank \<Rightarrow> char \<Rightarrow> int \<Rightarrow> int" where
  \<comment> \<open>The method call \<^verbatim>\<open>r.rank_at_row(c, row)\<close>.\<close>
  "rank_at_row r c row = r c row"

definition monotone_rank :: "TRank \<Rightarrow> bool" where
  \<comment> \<open>The rank of a symbol does not decrease along the rows.\<close>
  "monotone_rank r \<longleftrightarrow> (\<forall>c a b. a \<le> b \<longrightarrow> rank_at_row r c a \<le> rank_at_row r c b)"

text \<open>
  Modelled from the spec: the rank structure that \<^verbatim>\<open>t_rank.TRank\<close> builds, for the
  concrete evaluations below.  The specification describes \<^verbatim>\<open>rank(c, i)\<close> as the number
  of occurrences of symbol \<^verbatim>\<open>c\<close> within \<^verbatim>\<open>BWT[0..i]\<close> inclusive, with no occurrence
  counted for \<^verbatim>\<open>i < 0\<close>, and leaves open whether counts are zero- or one-based.  The
  parameter \<open>base\<close> is subtracted from the count: base 0 is the count itself, base 1 is
  the zero-based rank (the first occurrence has rank 0, and the rank is \<open>-1\<close> before it),
  the one for which the \<^verbatim>\<open>+ 1\<close> of \<^verbatim>\<open>backtrace_step\<close> is the step of backward search.
  The specification gives no value for a row at or past the end of the reference;
  \<^const>\<open>take\<close> then counts the whole reference, and no evaluation in this theory asks for
  such a row.
\<close>

definition count_rank :: "int \<Rightarrow> string \<Rightarrow> char list \<Rightarrow> TRank" where
  "count_rank base reference characters c row =
     int (count_list (take (nat (row + 1)) reference) c) - base"

section \<open>The index\<close>

record FMIndex =
  "text" :: string
  suffix_array :: "int list"
  bwt :: string
  occ_lex_lower :: "(char \<times> int) list"
  rank_cps :: TRank

fun subscripts :: "'a list \<Rightarrow> int list \<Rightarrow> 'a list option" where
  \<comment> \<open>\<^verbatim>\<open>[xs[i] for i in js]\<close>: the first subscript that raises ends the comprehension.\<close>
  "subscripts xs [] = Some []"
| "subscripts xs (j # js) =
     (case py_index xs j of
        None \<Rightarrow> None
      | Some x \<Rightarrow> (case subscripts xs js of None \<Rightarrow> None | Some r \<Rightarrow> Some (x # r)))"

definition FMIndex_init :: "(string \<Rightarrow> char list \<Rightarrow> TRank) \<Rightarrow> string \<Rightarrow> FMIndex option" where
  \<comment> \<open>\<^verbatim>\<open>FMIndex.__init__\<close>; \<open>TRank_new\<close> is the constructor \<^verbatim>\<open>t_rank.TRank\<close>.\<close>
  "FMIndex_init TRank_new txt =
     (let sa = create_suffix_array_naive txt in
      case subscripts txt (map (\<lambda>i. i - 1) sa) of
        None \<Rightarrow> None
      | Some b \<Rightarrow>
          (let occ = n_less_than b in
           Some \<lparr>text = txt, suffix_array = sa, bwt = b, occ_lex_lower = occ,
                 rank_cps = TRank_new b (map fst occ)\<rparr>))"

subsection \<open>Backward search\<close>

definition backtrace_step :: "FMIndex \<Rightarrow> char \<Rightarrow> int \<Rightarrow> int \<Rightarrow> int \<times> int" where
  "backtrace_step idx c start en =
     (case map_of (occ_lex_lower idx) c of
        None \<Rightarrow> (en + 1, en)
      | Some n \<Rightarrow>
          (rank_at_row (rank_cps idx) c (start - 1) + n + 1,
           rank_at_row (rank_cps idx) c en + n))"

fun get_range_loop :: "FMIndex \<Rightarrow> string \<Rightarrow> int \<Rightarrow> int \<Rightarrow> int \<times> int" where
  "get_range_loop idx [] start en = (start, en)"
| "get_range_loop idx (c # rs) start en =
     (case backtrace_step idx c start en of
        (start', en') \<Rightarrow>
          if start' > en' then (start', en') else get_range_loop idx rs start' en')"

definition get_range :: "FMIndex \<Rightarrow> string \<Rightarrow> int \<times> int" where
  "get_range idx p =
     (case get_range_loop idx (rev p) 0 (int (length (text idx)) - 1) of
        (start, en) \<Rightarrow> (start, en + 1))"

definition find_sub :: "FMIndex \<Rightarrow> string \<Rightarrow> int list" where
  \<comment> \<open>\<^verbatim>\<open>FMIndex.find\<close>\<close>
  "find_sub idx sub =
     (case get_range idx sub of
        (start, en) \<Rightarrow> if start < en then py_slice (suffix_array idx) start en else [])"

definition contains_substring :: "FMIndex \<Rightarrow> string \<Rightarrow> bool" where
  "contains_substring idx p = (case get_range idx p of (start, en) \<Rightarrow> start < en)"

subsection \<open>Reads and overlaps\<close>

fun sep_filter :: "string \<Rightarrow> int list \<Rightarrow> int list option" where
  \<comment> \<open>\<^verbatim>\<open>[i for i in indices if text[i - 1] == '$']\<close>\<close>
  "sep_filter txt [] = Some []"
| "sep_filter txt (i # indices) =
     (case py_index txt (i - 1) of
        None \<Rightarrow> None
      | Some c \<Rightarrow>
          (case sep_filter txt indices of
             None \<Rightarrow> None
           | Some r \<Rightarrow> Some (if c = CHR ''$'' then i # r else r)))"

definition elements_preceeded_by_sep :: "FMIndex \<Rightarrow> int \<Rightarrow> int \<Rightarrow> int list option" where
  "elements_preceeded_by_sep idx start en =
     sep_filter (text idx) (py_slice (suffix_array idx) start (en + 1))"

definition find_prefixes :: "FMIndex \<Rightarrow> string \<Rightarrow> int list option" where
  "find_prefixes idx p = sep_filter (text idx) (find_sub idx p)"

fun read_until_sep :: "string \<Rightarrow> int list \<Rightarrow> string \<Rightarrow> string option" where
  \<comment> \<open>Either loop of \<^verbatim>\<open>get_read_at_offset\<close>, over the subscripts it visits: append each
      character, stop at the first separator.\<close>
  "read_until_sep txt [] acc = Some acc"
| "read_until_sep txt (j # js) acc =
     (case py_index txt j of
        None \<Rightarrow> None
      | Some c \<Rightarrow> if c = CHR ''$'' then Some acc else read_until_sep txt js (acc @ [c]))"

definition get_read_at_offset :: "FMIndex \<Rightarrow> int \<Rightarrow> string option" where
  "get_read_at_offset idx offset =
     (case read_until_sep (text idx) (map (\<lambda>i. offset - i) (py_range 1 (offset + 1))) [] of
        None \<Rightarrow> None
      | Some before_chars \<Rightarrow>
          (case read_until_sep (text idx)
                  (map (\<lambda>i. offset + i) (py_range 0 (int (length (text idx)) - offset))) [] of
             None \<Rightarrow> None
           | Some after_chars \<Rightarrow> Some (rev before_chars @ after_chars)))"

fun reads_at :: "FMIndex \<Rightarrow> int \<Rightarrow> int list \<Rightarrow> (string \<times> int) list option" where
  \<comment> \<open>\<^verbatim>\<open>[(self.get_read_at_offset(i), chars_into_p) for i in overlaps]\<close>\<close>
  "reads_at idx chars_into_p [] = Some []"
| "reads_at idx chars_into_p (i # overlaps) =
     (case get_read_at_offset idx i of
        None \<Rightarrow> None
      | Some r \<Rightarrow>
          (case reads_at idx chars_into_p overlaps of
             None \<Rightarrow> None
           | Some rest \<Rightarrow> Some ((r, chars_into_p) # rest)))"

fun get_prefix_overlaps_loop ::
  "FMIndex \<Rightarrow> int \<Rightarrow> int \<Rightarrow> string \<Rightarrow> int \<Rightarrow> int \<Rightarrow> int \<Rightarrow> (string \<times> int) list
     \<Rightarrow> (string \<times> int) list option" where
  "get_prefix_overlaps_loop idx len_p min_overlap_len [] start en chars_into_p all_overlaps =
     Some all_overlaps"
| "get_prefix_overlaps_loop idx len_p min_overlap_len (c # rs) start en chars_into_p all_overlaps =
     (case backtrace_step idx c start en of
        (start', en') \<Rightarrow>
          if start' > en' then Some all_overlaps
          else if min_overlap_len \<le> chars_into_p + 1 \<and> chars_into_p + 1 < len_p then
            (case elements_preceeded_by_sep idx start' en' of
               None \<Rightarrow> None
             | Some overlaps \<Rightarrow>
                 (case reads_at idx (chars_into_p + 1) overlaps of
                    None \<Rightarrow> None
                  | Some found \<Rightarrow>
                      get_prefix_overlaps_loop idx len_p min_overlap_len rs start' en'
                        (chars_into_p + 1) (all_overlaps @ found)))
          else get_prefix_overlaps_loop idx len_p min_overlap_len rs start' en'
                 (chars_into_p + 1) all_overlaps)"

definition get_prefix_overlaps ::
  "FMIndex \<Rightarrow> string \<Rightarrow> int \<Rightarrow> (string \<times> int) list option" where
  "get_prefix_overlaps idx p min_overlap_len =
     get_prefix_overlaps_loop idx (int (length p)) min_overlap_len (rev p) 0
       (int (length (text idx)) - 1) 0 []"

subsection \<open>What the claims compare the index with\<close>

definition occurrences :: "string \<Rightarrow> string \<Rightarrow> int list" where
  \<comment> \<open>Follows the words of the completeness claim, not the source: the brute-force scan,
      every offset \<open>i\<close> with \<^verbatim>\<open>text[i:i+len(p)] == p\<close>, in increasing order.\<close>
  "occurrences txt p =
     filter (\<lambda>i. py_slice txt i (i + int (length p)) = p) (py_range 0 (int (length txt)))"

definition zero_based_rank :: "FMIndex \<Rightarrow> bool" where
  \<comment> \<open>The contract of a zero-based rank, on the rows of the BWT and on the row before the
      first: the occurrences of \<open>c\<close> in \<^verbatim>\<open>BWT[0..row]\<close>, minus one.  Nothing is asked of
      other rows.\<close>
  "zero_based_rank idx \<longleftrightarrow>
     (\<forall>c row. - 1 \<le> row \<and> row < int (length (bwt idx)) \<longrightarrow>
        rank_at_row (rank_cps idx) c row =
          int (count_list (take (nat (row + 1)) (bwt idx)) c) - 1)"

subsection \<open>Notions used in the proofs\<close>

definition up_to :: "bool \<Rightarrow> 'a::linorder list \<Rightarrow> 'a list \<Rightarrow> bool" where
  \<comment> \<open>\<open>y\<close> is below the pattern \<open>P\<close> or, unless \<open>strict\<close>, starts with it.\<close>
  "up_to strict P y \<longleftrightarrow> y < P \<or> (\<not> strict \<and> take (length P) y = P)"

definition suffix_offsets :: "'a::linorder list \<Rightarrow> nat list" where
  \<comment> \<open>The suffix array over natural numbers.\<close>
  "suffix_offsets txt = sort_key (\<lambda>x. drop x txt) [0..<length txt]"

definition rows_up_to :: "bool \<Rightarrow> 'a::linorder list \<Rightarrow> 'a list \<Rightarrow> nat" where
  \<comment> \<open>How many suffixes are below the pattern (or start with it): the first row after them.\<close>
  "rows_up_to strict txt P =
     length (filter (up_to strict P) (map (\<lambda>x. drop x txt) (suffix_offsets txt)))"

subsection \<open>Well-formedness of an index, and four example indexes\<close>

definition offsets_in_text :: "FMIndex \<Rightarrow> bool" where
  \<comment> \<open>Every suffix-array entry is an offset into the text.\<close>
  "offsets_in_text idx \<longleftrightarrow>
     (\<forall>i\<in>set (suffix_array idx). 0 \<le> i \<and> i < int (length (text idx)))"

abbreviation single_read_index :: FMIndex where
  \<comment> \<open>The index of \<^verbatim>\<open>"A$"\<close> with the zero-based rank.\<close>
  "single_read_index \<equiv>
     \<lparr>text = ''A$'', suffix_array = [1, 0], bwt = ''A$'',
      occ_lex_lower = [(CHR ''$'', 0), (CHR ''A'', 1)],
      rank_cps = count_rank 1 ''A$'' ''$A''\<rparr>"

abbreviation two_reads_index :: FMIndex where
  \<comment> \<open>The index of \<^verbatim>\<open>"ACGTACGA$TACGAGG$"\<close> with the zero-based rank.\<close>
  "two_reads_index \<equiv>
     \<lparr>text = ''ACGTACGA$TACGAGG$'',
      suffix_array = [16, 8, 7, 4, 10, 0, 13, 5, 11, 1, 15, 6, 12, 14, 2, 3, 9],
      bwt = ''GAGTT$GAAAGCCACG$'',
      occ_lex_lower =
        [(CHR ''$'', 0), (CHR ''A'', 2), (CHR ''C'', 7), (CHR ''G'', 10), (CHR ''T'', 15)],
      rank_cps = count_rank 1 ''GAGTT$GAAAGCCACG$'' ''$ACGT''\<rparr>"

abbreviation three_symbol_index :: FMIndex where
  \<comment> \<open>The index of \<^verbatim>\<open>"AB$"\<close> with the zero-based rank.\<close>
  "three_symbol_index \<equiv>
     \<lparr>text = ''AB$'', suffix_array = [2, 0, 1], bwt = ''B$A'',
      occ_lex_lower = [(CHR ''$'', 0), (CHR ''A'', 1), (CHR ''B'', 2)],
      rank_cps = count_rank 1 ''B$A'' ''$AB''\<rparr>"

abbreviation short_reads_index :: FMIndex where
  \<comment> \<open>The index of \<^verbatim>\<open>"B$A$"\<close> with the zero-based rank.\<close>
  "short_reads_index \<equiv>
     \<lparr>text = ''B$A$'', suffix_array = [3, 1, 2, 0], bwt = ''AB$$'',
      occ_lex_lower = [(CHR ''$'', 0), (CHR ''A'', 2), (CHR ''B'', 3)],
      rank_cps = count_rank 1 ''AB$$'' ''$AB''\<rparr>"

section \<open>Construction\<close>

lemma py_range_0: "py_range 0 (int n) = map int [0..<n]"
  by (simp add: py_range_def)

lemma set_create_suffix_array_naive:
  "set (create_suffix_array_naive txt) = {0..<int (length txt)}"
  by (simp add: create_suffix_array_naive_def py_range_0 image_int_atLeastLessThan)

lemma length_create_suffix_array_naive:
  "length (create_suffix_array_naive txt) = length txt"
  by (simp add: create_suffix_array_naive_def py_range_0)

lemma distinct_create_suffix_array_naive: "distinct (create_suffix_array_naive txt)"
  by (simp add: create_suffix_array_naive_def py_range_0 distinct_map)

lemma create_suffix_array_naive_Nil: "create_suffix_array_naive [] = []"
  by (simp add: create_suffix_array_naive_def py_range_def)

lemma py_index_pred:
  assumes "0 \<le> i" "i < int (length xs)"
  shows "py_index xs (i - 1) = Some (if i = 0 then last xs else xs ! nat (i - 1))"
proof (cases "i = 0")
  case True
  with assms have "xs \<noteq> []" by auto
  then have "xs ! nat (int (length xs) - 1) = last xs"
    by (simp add: last_conv_nth nat_diff_distrib')
  with True assms show ?thesis by (simp add: py_index_def Let_def)
next
  case False
  with assms show ?thesis by (simp add: py_index_def Let_def)
qed

lemma py_index_before_zero:
  assumes "xs \<noteq> []"
  shows "py_index xs (0 - 1) = Some (last xs)"
  using py_index_pred [of 0 xs] assms by simp

lemma py_index_defined:
  "- int (length xs) \<le> i \<Longrightarrow> i < int (length xs) \<Longrightarrow> \<exists>y. py_index xs i = Some y"
  by (auto simp: py_index_def Let_def)

lemma subscripts_Some:
  "\<forall>j\<in>set js. py_index xs j \<noteq> None \<Longrightarrow>
   subscripts xs js = Some (map (\<lambda>j. the (py_index xs j)) js)"
  by (induction js) (auto split: option.splits)

lemma FMIndex_init_Some:
  "FMIndex_init TRank_new txt =
     Some \<lparr>text = txt, suffix_array = create_suffix_array_naive txt,
           bwt = map (\<lambda>i. the (py_index txt (i - 1))) (create_suffix_array_naive txt),
           occ_lex_lower =
             n_less_than (map (\<lambda>i. the (py_index txt (i - 1))) (create_suffix_array_naive txt)),
           rank_cps =
             TRank_new (map (\<lambda>i. the (py_index txt (i - 1))) (create_suffix_array_naive txt))
               (map fst (n_less_than
                  (map (\<lambda>i. the (py_index txt (i - 1))) (create_suffix_array_naive txt))))\<rparr>"
proof -
  have "subscripts txt (map (\<lambda>i. i - 1) (create_suffix_array_naive txt)) =
        Some (map (\<lambda>j. the (py_index txt j)) (map (\<lambda>i. i - 1) (create_suffix_array_naive txt)))"
    by (rule subscripts_Some) (auto simp: set_create_suffix_array_naive py_index_pred)
  then show ?thesis
    by (simp add: FMIndex_init_def Let_def comp_def)
qed

lemma FMIndex_init_fields:
  assumes "FMIndex_init TRank_new txt = Some idx"
  shows "text idx = txt" and "suffix_array idx = create_suffix_array_naive txt"
  using assms by (auto simp: FMIndex_init_Some)

lemma FMIndex_init_occ:
  assumes "FMIndex_init TRank_new txt = Some idx"
  shows "occ_lex_lower idx = n_less_than (bwt idx)"
    and "bwt idx = map (\<lambda>i. the (py_index txt (i - 1))) (create_suffix_array_naive txt)"
  using assms by (auto simp: FMIndex_init_Some)

lemma FMIndex_init_offsets_in_text:
  assumes "FMIndex_init TRank_new txt = Some idx"
  shows "offsets_in_text idx"
  using FMIndex_init_fields [OF assms]
  by (simp add: offsets_in_text_def set_create_suffix_array_naive)

lemma py_slice_all: "py_slice xs 0 (int (length xs)) = xs"
  by (simp add: py_slice_def py_bound_def)

lemma set_py_slice: "set (py_slice xs a b) \<subseteq> set xs"
  unfolding py_slice_def by (meson set_take_subset set_drop_subset subset_trans)

lemma set_py_range: "set (py_range a b) = {a..<b}"
proof -
  have "set (py_range a b) = (\<lambda>k. a + int k) ` {0..<nat (b - a)}"
    by (simp add: py_range_def)
  also have "\<dots> = {a..<b}"
  proof (intro set_eqI iffI)
    fix x assume "x \<in> {a..<b}"
    then have "x = a + int (nat (x - a))" "nat (x - a) \<in> {0..<nat (b - a)}" by auto
    then show "x \<in> (\<lambda>k. a + int k) ` {0..<nat (b - a)}" by (rule image_eqI)
  qed auto
  finally show ?thesis .
qed

lemma FMIndex_init_single:
  "FMIndex_init TRank_new ''A$'' =
     Some \<lparr>text = ''A$'', suffix_array = [1, 0], bwt = ''A$'',
           occ_lex_lower = [(CHR ''$'', 0), (CHR ''A'', 1)],
           rank_cps = TRank_new ''A$'' ''$A''\<rparr>"
proof -
  have "create_suffix_array_naive ''A$'' = [1, 0]" by code_simp
  moreover have "map (\<lambda>i. the (py_index ''A$'' (i - 1))) [1, 0] = ''A$''" by code_simp
  moreover have "n_less_than ''A$'' = [(CHR ''$'', 0), (CHR ''A'', 1)]" by code_simp
  ultimately show ?thesis by (simp add: FMIndex_init_Some)
qed

lemma FMIndex_init_two_reads:
  "FMIndex_init TRank_new ''ACGTACGA$TACGAGG$'' =
     Some \<lparr>text = ''ACGTACGA$TACGAGG$'',
           suffix_array = [16, 8, 7, 4, 10, 0, 13, 5, 11, 1, 15, 6, 12, 14, 2, 3, 9],
           bwt = ''GAGTT$GAAAGCCACG$'',
           occ_lex_lower =
             [(CHR ''$'', 0), (CHR ''A'', 2), (CHR ''C'', 7), (CHR ''G'', 10), (CHR ''T'', 15)],
           rank_cps = TRank_new ''GAGTT$GAAAGCCACG$'' ''$ACGT''\<rparr>"
proof -
  have "create_suffix_array_naive ''ACGTACGA$TACGAGG$'' =
      [16, 8, 7, 4, 10, 0, 13, 5, 11, 1, 15, 6, 12, 14, 2, 3, 9]" by code_simp
  moreover have "map (\<lambda>i. the (py_index ''ACGTACGA$TACGAGG$'' (i - 1)))
      [16, 8, 7, 4, 10, 0, 13, 5, 11, 1, 15, 6, 12, 14, 2, 3, 9] = ''GAGTT$GAAAGCCACG$''"
    by code_simp
  moreover have "n_less_than ''GAGTT$GAAAGCCACG$'' =
      [(CHR ''$'', 0), (CHR ''A'', 2), (CHR ''C'', 7), (CHR ''G'', 10), (CHR ''T'', 15)]"
    by code_simp
  ultimately show ?thesis by (simp add: FMIndex_init_Some)
qed

lemma FMIndex_init_three_symbols:
  "FMIndex_init TRank_new ''AB$'' =
     Some \<lparr>text = ''AB$'', suffix_array = [2, 0, 1], bwt = ''B$A'',
           occ_lex_lower = [(CHR ''$'', 0), (CHR ''A'', 1), (CHR ''B'', 2)],
           rank_cps = TRank_new ''B$A'' ''$AB''\<rparr>"
proof -
  have "create_suffix_array_naive ''AB$'' = [2, 0, 1]" by code_simp
  moreover have "map (\<lambda>i. the (py_index ''AB$'' (i - 1))) [2, 0, 1] = ''B$A''" by code_simp
  moreover have "n_less_than ''B$A'' = [(CHR ''$'', 0), (CHR ''A'', 1), (CHR ''B'', 2)]"
    by code_simp
  ultimately show ?thesis by (simp add: FMIndex_init_Some)
qed

lemma FMIndex_init_short_reads:
  "FMIndex_init TRank_new ''B$A$'' =
     Some \<lparr>text = ''B$A$'', suffix_array = [3, 1, 2, 0], bwt = ''AB$$'',
           occ_lex_lower = [(CHR ''$'', 0), (CHR ''A'', 2), (CHR ''B'', 3)],
           rank_cps = TRank_new ''AB$$'' ''$AB''\<rparr>"
proof -
  have "create_suffix_array_naive ''B$A$'' = [3, 1, 2, 0]" by code_simp
  moreover have "map (\<lambda>i. the (py_index ''B$A$'' (i - 1))) [3, 1, 2, 0] = ''AB$$''"
    by code_simp
  moreover have "n_less_than ''AB$$'' = [(CHR ''$'', 0), (CHR ''A'', 2), (CHR ''B'', 3)]"
    by code_simp
  ultimately show ?thesis by (simp add: FMIndex_init_Some)
qed

section \<open>The count table is the number of smaller symbols\<close>

lemma Counter_fold_map_of:
  "map_of (fold (\<lambda>x d. AList.update x (case map_of d x of None \<Rightarrow> 1 | Some v \<Rightarrow> v + 1) d) xs d) c =
     (if c \<in> set xs
      then Some ((case map_of d c of None \<Rightarrow> 0 | Some v \<Rightarrow> v) + int (count_list xs c))
      else map_of d c)"
  by (induction xs arbitrary: d) (auto simp: update_conv' split: option.splits)

lemma Counter_fold_distinct:
  "distinct (map fst d) \<Longrightarrow>
   distinct (map fst (fold (\<lambda>x d. AList.update x (case map_of d x of None \<Rightarrow> 1 | Some v \<Rightarrow> v + 1) d) xs d))"
  by (induction xs arbitrary: d) (auto simp: distinct_update)

lemma map_of_Counter:
  "map_of (Counter xs) c = (if c \<in> set xs then Some (int (count_list xs c)) else None)"
  by (simp add: Counter_def Counter_fold_map_of)

lemma distinct_Counter: "distinct (map fst (Counter xs))"
  by (simp add: Counter_def Counter_fold_distinct)

lemma Counter_entry:
  "(k, v) \<in> set (Counter xs) \<longleftrightarrow> k \<in> set xs \<and> v = int (count_list xs k)"
proof -
  have "(k, v) \<in> set (Counter xs) \<longleftrightarrow> map_of (Counter xs) k = Some v"
    using distinct_Counter [of xs] by (rule map_of_eq_Some_iff [symmetric])
  also have "\<dots> \<longleftrightarrow> k \<in> set xs \<and> v = int (count_list xs k)"
    unfolding map_of_Counter by auto
  finally show ?thesis .
qed

lemma keys_Counter: "fst ` set (Counter xs) = set xs"
proof (intro set_eqI iffI)
  fix k assume "k \<in> set xs"
  then have "(k, int (count_list xs k)) \<in> set (Counter xs)" by (simp add: Counter_entry)
  then show "k \<in> fst ` set (Counter xs)" by force
qed (auto simp: Counter_entry)

lemma sorted_fst_of_sorted_pairs:
  fixes ps :: "('a::linorder \<times> 'b::linorder) list"
  shows "sorted ps \<Longrightarrow> sorted (map fst ps)"
  by (induction ps) (auto simp: less_eq_prod_def)

lemma n_less_than_loop_map_of:
  fixes ps :: "('a::linorder \<times> int) list"
  shows "sorted (map fst ps) \<Longrightarrow> distinct (map fst ps) \<Longrightarrow>
   map_of (n_less_than_loop ps lower d) c =
     (if c \<in> fst ` set ps
      then Some (lower + sum_list (map snd (filter (\<lambda>p. fst p < c) ps)))
      else map_of d c)"
proof (induction ps arbitrary: lower d)
  case Nil
  then show ?case by simp
next
  case (Cons p ps)
  obtain k v where p: "p = (k, v)" by (cases p)
  from Cons.prems p have s: "sorted (map fst ps)" and dd: "distinct (map fst ps)"
    and k: "k \<notin> fst ` set ps" and le: "\<forall>q\<in>set ps. k \<le> fst q"
    by auto
  from k le have lt: "\<forall>q\<in>set ps. k < fst q" by force
  note IH = Cons.IH [OF s dd, of "lower + v" "AList.update k lower d"]
  show ?case
  proof (cases "c = k")
    case True
    from lt have "filter (\<lambda>q. fst q < k) ps = []" by (auto simp: filter_empty_conv)
    moreover from IH True k
    have "map_of (n_less_than_loop ps (lower + v) (AList.update k lower d)) k = Some lower"
      by (simp add: update_conv')
    ultimately show ?thesis using True by (simp add: p)
  next
    case False
    show ?thesis
    proof (cases "c \<in> fst ` set ps")
      case True
      with lt have "k < c" by auto
      with True False show ?thesis by (simp add: p IH)
    next
      case False
      with \<open>c \<noteq> k\<close> show ?thesis by (simp add: p IH update_conv')
    qed
  qed
qed

lemma count_less_as_sum:
  fixes xs :: "'a::linorder list"
  assumes "distinct ks" and "set ks = set xs"
  shows "(\<Sum>k\<leftarrow>filter (\<lambda>k. k < c) ks. int (count_list xs k)) = int (length (filter (\<lambda>x. x < c) xs))"
proof -
  let ?ys = "filter (\<lambda>x. x < c) xs"
  have cnt: "count_list ?ys k = (if k < c then count_list xs k else 0)" for k
    by (induction xs) auto
  have "(\<Sum>k\<leftarrow>filter (\<lambda>k. k < c) ks. int (count_list xs k)) =
        (\<Sum>k\<in>set (filter (\<lambda>k. k < c) ks). int (count_list xs k))"
    using assms(1) by (simp add: sum_list_distinct_conv_sum_set)
  also have "\<dots> = (\<Sum>k\<in>set ?ys. int (count_list ?ys k))"
    using assms(2) by (intro sum.cong) (auto simp: cnt)
  also have "\<dots> = int (\<Sum>k\<in>set ?ys. count_list ?ys k)" by simp
  also have "(\<Sum>k\<in>set ?ys. count_list ?ys k) = length ?ys"
    by (rule sum_count_set) auto
  finally show ?thesis .
qed

lemma snd_of_filtered:
  "\<forall>p\<in>set ps. snd p = f (fst p) \<Longrightarrow>
   map snd (filter (\<lambda>p. P (fst p)) ps) = map f (filter P (map fst ps))"
  by (induction ps) auto

lemma map_of_n_less_than:
  fixes xs :: "'a::linorder list"
  shows "map_of (n_less_than xs) c =
     (if c \<in> set xs then Some (int (length (filter (\<lambda>x. x < c) xs))) else None)"
proof -
  let ?ps = "sort (Counter xs)"
  have d: "distinct (map fst ?ps)"
    using distinct_Counter [of xs] by (simp add: distinct_map)
  have s: "sorted (map fst ?ps)" by (rule sorted_fst_of_sorted_pairs) simp
  have keys: "fst ` set ?ps = set xs" by (simp add: keys_Counter)
  have "\<forall>p\<in>set ?ps. snd p = int (count_list xs (fst p))"
    by (auto simp: Counter_entry)
  then have snd_eq: "map snd (filter (\<lambda>p. fst p < c) ?ps) =
        map (\<lambda>k. int (count_list xs k)) (filter (\<lambda>k. k < c) (map fst ?ps))"
    by (rule snd_of_filtered)
  have "sum_list (map snd (filter (\<lambda>p. fst p < c) ?ps)) = int (length (filter (\<lambda>x. x < c) xs))"
    unfolding snd_eq using d keys by (intro count_less_as_sum) auto
  then show ?thesis
    using keys by (simp add: n_less_than_def n_less_than_loop_map_of [OF s d])
qed

lemma n_less_than_Nil: "n_less_than [] = []"
  by (simp add: n_less_than_def Counter_def)

lemma length_filter_mono:
  "(\<And>x. P x \<Longrightarrow> Q x) \<Longrightarrow> length (filter P xs) \<le> length (filter Q xs)"
  by (induction xs) auto

lemma below_greatest:
  fixes xs :: "'a::linorder list"
  assumes "xs \<noteq> []"
  shows "length (filter (\<lambda>x. x < Max (set xs)) xs) + count_list xs (Max (set xs)) = length xs"
proof -
  have "filter (\<lambda>x. x < Max (set xs)) xs = filter (\<lambda>x. x \<noteq> Max (set xs)) xs"
    by (rule filter_cong) (auto simp: less_le)
  moreover have "length (filter (\<lambda>x. x \<noteq> g) xs) + count_list xs g = length xs" for g
    by (induction xs) auto
  ultimately show ?thesis by simp
qed

lemma Max_AB: "Max (set ''AB$'') = CHR ''B''"
  by code_simp

section \<open>The BWT is a permutation of the text\<close>

lemma rotated_text:
  assumes "txt \<noteq> []"
  shows "map (\<lambda>k. the (py_index txt (int k - 1))) [0..<length txt] = last txt # butlast txt"
proof (rule nth_equalityI)
  show "length (map (\<lambda>k. the (py_index txt (int k - 1))) [0..<length txt]) =
        length (last txt # butlast txt)"
    using assms by simp
next
  fix i assume "i < length (map (\<lambda>k. the (py_index txt (int k - 1))) [0..<length txt])"
  then have i: "i < length txt" by simp
  then have "the (py_index txt (int i - 1)) = (if i = 0 then last txt else txt ! (i - 1))"
    by (simp add: py_index_pred nat_diff_distrib')
  also have "\<dots> = (last txt # butlast txt) ! i"
    using i by (cases i) (simp_all add: nth_butlast)
  finally show "map (\<lambda>k. the (py_index txt (int k - 1))) [0..<length txt] ! i =
                (last txt # butlast txt) ! i"
    using i by simp
qed

lemma mset_bwt:
  assumes "FMIndex_init TRank_new txt = Some idx"
  shows "mset (bwt idx) = mset txt"
proof (cases "txt = []")
  case True
  with FMIndex_init_occ(2) [OF assms] show ?thesis
    by (simp add: create_suffix_array_naive_Nil)
next
  case False
  let ?f = "\<lambda>i. the (py_index txt (i - 1))"
  have "mset (bwt idx) = image_mset ?f (mset (create_suffix_array_naive txt))"
    by (simp add: FMIndex_init_occ(2) [OF assms])
  also have "mset (create_suffix_array_naive txt) = mset (map int [0..<length txt])"
    by (simp add: create_suffix_array_naive_def py_range_0)
  also have "image_mset ?f (mset (map int [0..<length txt])) =
             mset (map (\<lambda>k. ?f (int k)) [0..<length txt])"
    by (simp add: comp_def multiset.map_comp)
  also have "\<dots> = mset (last txt # butlast txt)"
    by (simp only: rotated_text [OF False])
  also have "\<dots> = mset (butlast txt @ [last txt])" by simp
  also have "\<dots> = mset txt" using False by simp
  finally show ?thesis .
qed

lemma bwt_same_symbols:
  assumes "FMIndex_init TRank_new txt = Some idx"
  shows "set (bwt idx) = set txt"
    and "length (bwt idx) = length txt"
    and "count_list (bwt idx) c = count_list txt c"
    and "length (filter P (bwt idx)) = length (filter P txt)"
proof -
  note m = mset_bwt [OF assms]
  show "set (bwt idx) = set txt" using m by (rule mset_eq_setD)
  show "length (bwt idx) = length txt" using m by (rule mset_eq_length)
  show "count_list (bwt idx) c = count_list txt c"
    using m by (metis count_mset)
  have "mset (filter P (bwt idx)) = mset (filter P txt)"
    using m by (simp only: mset_filter)
  then show "length (filter P (bwt idx)) = length (filter P txt)" by (rule mset_eq_length)
qed

lemma count_table_lookup:
  assumes "FMIndex_init TRank_new txt = Some idx"
  shows "map_of (occ_lex_lower idx) c =
           (if c \<in> set txt then Some (int (length (filter (\<lambda>x. x < c) txt))) else None)"
  by (simp add: FMIndex_init_occ(1) [OF assms] map_of_n_less_than bwt_same_symbols [OF assms])

section \<open>Backward search\<close>

lemma count_list_take_le: "count_list (take m xs) c \<le> count_list xs c"
proof -
  have "count_list xs c = count_list (take m xs @ drop m xs) c" by simp
  also have "\<dots> = count_list (take m xs) c + count_list (drop m xs) c"
    by (rule count_list_append)
  finally show ?thesis by simp
qed

lemma count_list_take_mono:
  assumes "m \<le> k"
  shows "count_list (take m xs) c \<le> count_list (take k xs) c"
proof -
  from assms have "take m xs = take m (take k xs)" by (simp add: min_def)
  then show ?thesis by (metis count_list_take_le)
qed

lemma monotone_count_rank: "monotone_rank (count_rank base reference characters)"
  by (auto simp: monotone_rank_def rank_at_row_def count_rank_def intro!: count_list_take_mono)

lemma backtrace_step_bound:
  assumes "monotone_rank (rank_cps idx)"
    and "start \<le> en + 1" and "backtrace_step idx c start en = (s, e)"
  shows "s \<le> e + 1"
proof (cases "map_of (occ_lex_lower idx) c")
  case None
  with assms(3) show ?thesis by (simp add: backtrace_step_def)
next
  case (Some n)
  from assms(1,2) have "rank_at_row (rank_cps idx) c (start - 1) \<le> rank_at_row (rank_cps idx) c en"
    by (simp add: monotone_rank_def)
  with Some assms(3) show ?thesis by (auto simp: backtrace_step_def)
qed

lemma get_range_loop_bound:
  assumes "monotone_rank (rank_cps idx)"
  shows "start \<le> en + 1 \<Longrightarrow> get_range_loop idx rs start en = (s, e) \<Longrightarrow> s \<le> e + 1"
proof (induction rs arbitrary: start en)
  case Nil
  then show ?case by simp
next
  case (Cons c rs)
  obtain s' e' where st: "backtrace_step idx c start en = (s', e')"
    by (cases "backtrace_step idx c start en")
  have b: "s' \<le> e' + 1" using assms Cons.prems(1) st by (rule backtrace_step_bound)
  show ?case
  proof (cases "s' > e'")
    case True
    with Cons.prems(2) st b show ?thesis by simp
  next
    case False
    with Cons.prems(2) st have "get_range_loop idx rs s' e' = (s, e)" by simp
    moreover from False have "s' \<le> e' + 1" by simp
    ultimately show ?thesis by (rule Cons.IH [rotated])
  qed
qed

lemma get_range_loop_unknown_symbol:
  "c \<in> set rs \<Longrightarrow> map_of (occ_lex_lower idx) c = None \<Longrightarrow>
   get_range_loop idx rs start en = (s, e) \<Longrightarrow> s > e"
proof (induction rs arbitrary: start en)
  case Nil
  then show ?case by simp
next
  case (Cons x rs)
  obtain s' e' where st: "backtrace_step idx x start en = (s', e')"
    by (cases "backtrace_step idx x start en")
  show ?case
  proof (cases "s' > e'")
    case True
    with Cons.prems(3) st show ?thesis by simp
  next
    case False
    with st Cons.prems(2) have "x \<noteq> c" by (auto simp: backtrace_step_def)
    with Cons.prems(1) have "c \<in> set rs" by simp
    moreover from False Cons.prems(3) st have "get_range_loop idx rs s' e' = (s, e)" by simp
    ultimately show ?thesis using Cons.prems(2) Cons.IH by blast
  qed
qed

lemma get_range_loop_snoc_same:
  "rs \<noteq> [] \<Longrightarrow> get_range_loop idx rs start en = (s, e) \<Longrightarrow> s > e \<Longrightarrow>
   get_range_loop idx (rs @ [c]) start en = (s, e)"
proof (induction rs arbitrary: start en)
  case Nil
  then show ?case by simp
next
  case (Cons x rs)
  obtain s1 e1 where st: "backtrace_step idx x start en = (s1, e1)"
    by (cases "backtrace_step idx x start en")
  show ?case
  proof (cases "s1 > e1")
    case True
    with Cons.prems st show ?thesis by simp
  next
    case False
    with Cons.prems st have l: "get_range_loop idx rs s1 e1 = (s, e)" by simp
    with False Cons.prems(3) have "rs \<noteq> []" by auto
    from Cons.IH [OF this l Cons.prems(3)] False st show ?thesis by simp
  qed
qed

section \<open>Overlaps\<close>

lemma sep_filter_Some:
  "\<forall>i\<in>set indices. 0 \<le> i \<and> i < int (length txt) \<Longrightarrow>
   \<exists>r. sep_filter txt indices = Some r \<and> set r \<subseteq> set indices
     \<and> (\<forall>i\<in>set indices. py_index txt (i - 1) = Some CHR ''$'' \<longrightarrow> i \<in> set r)"
proof (induction indices)
  case Nil
  then show ?case by simp
next
  case (Cons i indices)
  then obtain r where r: "sep_filter txt indices = Some r" "set r \<subseteq> set indices"
    "\<forall>i\<in>set indices. py_index txt (i - 1) = Some CHR ''$'' \<longrightarrow> i \<in> set r"
    by auto
  from Cons.prems py_index_defined [of "txt" "i - 1"]
  obtain c where c: "py_index txt (i - 1) = Some c" by auto
  with r show ?case by auto
qed

lemma read_until_sep_Some:
  "\<forall>j\<in>set js. py_index txt j \<noteq> None \<Longrightarrow> \<exists>r. read_until_sep txt js acc = Some r"
  by (induction js arbitrary: acc) (auto split: option.splits)

lemma get_read_at_offset_Some:
  assumes "0 \<le> offset" and "offset < int (length (text idx))"
  shows "\<exists>r. get_read_at_offset idx offset = Some r"
proof -
  have "\<forall>j\<in>set (map (\<lambda>i. offset - i) (py_range 1 (offset + 1))). py_index (text idx) j \<noteq> None"
    using assms by (auto simp: set_py_range intro!: py_index_defined)
  then obtain b where b:
    "read_until_sep (text idx) (map (\<lambda>i. offset - i) (py_range 1 (offset + 1))) [] = Some b"
    using read_until_sep_Some by blast
  have "\<forall>j\<in>set (map (\<lambda>i. offset + i) (py_range 0 (int (length (text idx)) - offset))).
          py_index (text idx) j \<noteq> None"
    using assms by (auto simp: set_py_range intro!: py_index_defined)
  then obtain a where a:
    "read_until_sep (text idx)
       (map (\<lambda>i. offset + i) (py_range 0 (int (length (text idx)) - offset))) [] = Some a"
    using read_until_sep_Some by blast
  show ?thesis by (simp add: get_read_at_offset_def a b)
qed

lemma reads_at_Some:
  "\<forall>i\<in>set overlaps. 0 \<le> i \<and> i < int (length (text idx)) \<Longrightarrow>
   \<exists>found. reads_at idx k overlaps = Some found"
proof (induction overlaps)
  case Nil
  then show ?case by simp
next
  case (Cons i overlaps)
  then obtain rest where "reads_at idx k overlaps = Some rest" by auto
  moreover from Cons.prems obtain r where "get_read_at_offset idx i = Some r"
    using get_read_at_offset_Some [of i idx] by auto
  ultimately show ?case by simp
qed

lemma reads_at_lengths:
  "reads_at idx k overlaps = Some found \<Longrightarrow> list_all (\<lambda>(r, n). n = k) found"
  by (induction overlaps arbitrary: found) (auto split: option.splits)

lemma reads_at_member:
  "reads_at idx k overlaps = Some found \<Longrightarrow> i \<in> set overlaps \<Longrightarrow>
   get_read_at_offset idx i = Some r \<Longrightarrow> (r, k) \<in> set found"
  by (induction overlaps arbitrary: found) (auto split: option.splits)

lemma elements_preceeded_by_sep_Some:
  assumes "offsets_in_text idx"
  shows "\<exists>r. elements_preceeded_by_sep idx start en = Some r
           \<and> (\<forall>i\<in>set r. 0 \<le> i \<and> i < int (length (text idx)))"
proof -
  let ?ix = "py_slice (suffix_array idx) start (en + 1)"
  have in_text: "\<forall>i\<in>set ?ix. 0 \<le> i \<and> i < int (length (text idx))"
    using assms set_py_slice [of "suffix_array idx" start "en + 1"]
    by (auto simp: offsets_in_text_def)
  then obtain r where "sep_filter (text idx) ?ix = Some r" "set r \<subseteq> set ?ix"
    using sep_filter_Some [of ?ix] by blast
  with in_text show ?thesis by (auto simp: elements_preceeded_by_sep_def)
qed

lemma get_prefix_overlaps_loop_Some:
  assumes "offsets_in_text idx"
  shows "\<exists>res. get_prefix_overlaps_loop idx len_p m rs start en k acc = Some res"
proof (induction rs arbitrary: start en k acc)
  case Nil
  then show ?case by simp
next
  case (Cons c rs)
  obtain s' e' where st: "backtrace_step idx c start en = (s', e')"
    by (cases "backtrace_step idx c start en")
  obtain ov where ov: "elements_preceeded_by_sep idx s' e' = Some ov"
    "\<forall>i\<in>set ov. 0 \<le> i \<and> i < int (length (text idx))"
    using elements_preceeded_by_sep_Some [OF assms] by blast
  obtain found where found: "reads_at idx (k + 1) ov = Some found"
    using reads_at_Some [OF ov(2)] by blast
  show ?case using Cons.IH by (simp add: st ov found)
qed

lemma get_prefix_overlaps_loop_lengths:
  "get_prefix_overlaps_loop idx len_p m rs start en k acc = Some res \<Longrightarrow>
   list_all (\<lambda>(r, n). m \<le> n \<and> n < len_p) acc \<Longrightarrow>
   list_all (\<lambda>(r, n). m \<le> n \<and> n < len_p) res"
proof (induction rs arbitrary: start en k acc)
  case Nil
  then show ?case by simp
next
  case (Cons c rs)
  obtain s' e' where st: "backtrace_step idx c start en = (s', e')"
    by (cases "backtrace_step idx c start en")
  show ?case
  proof (cases "s' > e'")
    case True
    with Cons.prems st show ?thesis by simp
  next
    case ne: False
    show ?thesis
    proof (cases "m \<le> k + 1 \<and> k + 1 < len_p")
      case True
      with Cons.prems(1) st ne obtain ov found where
        ov: "elements_preceeded_by_sep idx s' e' = Some ov" and
        found: "reads_at idx (k + 1) ov = Some found" and
        rec: "get_prefix_overlaps_loop idx len_p m rs s' e' (k + 1) (acc @ found) = Some res"
        by (auto split: option.splits)
      from reads_at_lengths [OF found] True
      have "list_all (\<lambda>(r, n). m \<le> n \<and> n < len_p) found"
        by (auto simp: list_all_iff)
      with Cons.prems(2) have "list_all (\<lambda>(r, n). m \<le> n \<and> n < len_p) (acc @ found)" by simp
      with rec show ?thesis by (rule Cons.IH)
    next
      case False
      with Cons.prems(1) st ne
      have "get_prefix_overlaps_loop idx len_p m rs s' e' (k + 1) acc = Some res" by auto
      then show ?thesis using Cons.prems(2) by (rule Cons.IH)
    qed
  qed
qed

lemma get_prefix_overlaps_loop_keeps:
  "get_prefix_overlaps_loop idx len_p m rs start en k acc = Some res \<Longrightarrow> set acc \<subseteq> set res"
proof (induction rs arbitrary: start en k acc)
  case Nil
  then show ?case by simp
next
  case (Cons c rs)
  obtain s' e' where st: "backtrace_step idx c start en = (s', e')"
    by (cases "backtrace_step idx c start en")
  show ?case
  proof (cases "s' > e'")
    case True
    with Cons.prems st show ?thesis by simp
  next
    case ne: False
    show ?thesis
    proof (cases "m \<le> k + 1 \<and> k + 1 < len_p")
      case True
      with Cons.prems st ne obtain ov found where
        "get_prefix_overlaps_loop idx len_p m rs s' e' (k + 1) (acc @ found) = Some res"
        by (auto split: option.splits)
      from Cons.IH [OF this] show ?thesis by simp
    next
      case False
      with Cons.prems st ne
      have "get_prefix_overlaps_loop idx len_p m rs s' e' (k + 1) acc = Some res" by auto
      then show ?thesis by (rule Cons.IH)
    qed
  qed
qed

lemma get_prefix_overlaps_loop_reports:
  assumes "get_read_at_offset idx i = Some r"
  shows "get_prefix_overlaps_loop idx len_p m rs start en j acc = Some res \<Longrightarrow>
   0 < k \<Longrightarrow> k \<le> length rs \<Longrightarrow> m \<le> j + int k \<Longrightarrow> j + int k < len_p \<Longrightarrow>
   get_range_loop idx (take k rs) start en = (s, e) \<Longrightarrow> s \<le> e \<Longrightarrow>
   elements_preceeded_by_sep idx s e = Some ov \<Longrightarrow> i \<in> set ov \<Longrightarrow>
   (r, j + int k) \<in> set res"
proof (induction rs arbitrary: start en j acc k)
  case Nil
  then show ?case by simp
next
  case (Cons c rs)
  obtain s1 e1 where st: "backtrace_step idx c start en = (s1, e1)"
    by (cases "backtrace_step idx c start en")
  from Cons.prems(2) obtain k' where k': "k = Suc k'" by (cases k) auto
  have ne: "\<not> s1 > e1"
  proof
    assume "s1 > e1"
    with Cons.prems(6) st k' have "(s, e) = (s1, e1)" by simp
    with \<open>s1 > e1\<close> Cons.prems(7) show False by simp
  qed
  with Cons.prems(6) st k' have rng: "get_range_loop idx (take k' rs) s1 e1 = (s, e)" by simp
  show ?case
  proof (cases "k' = 0")
    case True
    with rng have se: "s1 = s" "e1 = e" by simp_all
    from True k' Cons.prems(4,5) have guard: "m \<le> j + 1 \<and> j + 1 < len_p" by simp
    with Cons.prems(1) st ne se Cons.prems(8) obtain found where
      found: "reads_at idx (j + 1) ov = Some found" and
      rec: "get_prefix_overlaps_loop idx len_p m rs s e (j + 1) (acc @ found) = Some res"
      by (auto split: option.splits)
    from reads_at_member [OF found Cons.prems(9) assms] have "(r, j + 1) \<in> set found" .
    with get_prefix_overlaps_loop_keeps [OF rec] True k' show ?thesis by auto
  next
    case False
    from Cons.prems(1) st ne obtain acc' where
      rec: "get_prefix_overlaps_loop idx len_p m rs s1 e1 (j + 1) acc' = Some res"
      by (auto split: option.splits if_splits)
    have "(r, (j + 1) + int k') \<in> set res"
      using rec _ _ _ _ rng Cons.prems(7,8,9)
    proof (rule Cons.IH)
      show "0 < k'" using False by simp
      show "k' \<le> length rs" using Cons.prems(3) k' by simp
      show "m \<le> j + 1 + int k'" using Cons.prems(4) k' by simp
      show "j + 1 + int k' < len_p" using Cons.prems(5) k' by simp
    qed
    with k' show ?thesis by (simp add: add.assoc)
  qed
qed

section \<open>Backward search finds the rows of a pattern\<close>

subsection \<open>The suffix array over natural numbers\<close>

lemma insort_key_map:
  "insort_key f (g x) (map g xs) = map g (insort_key (\<lambda>a. f (g a)) x xs)"
  by (induction xs) auto

lemma sort_key_map: "sort_key f (map g xs) = map g (sort_key (\<lambda>a. f (g a)) xs)"
  by (induction xs) (auto simp: insort_key_map)

lemma py_slice_from_nat: "x \<le> length xs \<Longrightarrow> py_slice_from xs (int x) = drop x xs"
  by (simp add: py_slice_from_def py_bound_def min_def)

lemma sort_key_cong_set:
  "(\<And>x. x \<in> set xs \<Longrightarrow> f x = g x) \<Longrightarrow> sort_key f xs = sort_key g xs"
proof (induction xs)
  case Nil
  then show ?case by simp
next
  case (Cons a xs)
  then have IH: "sort_key f xs = sort_key g xs" and a: "f a = g a" by auto
  have "insort_key f a ys = insort_key g a ys" if "set ys \<subseteq> set xs" for ys
    using that
  proof (induction ys)
    case Nil
    then show ?case by simp
  next
    case (Cons y ys)
    then have "f y = g y" using \<open>\<And>x. x \<in> set (a # xs) \<Longrightarrow> f x = g x\<close> by auto
    with Cons a show ?case by simp
  qed
  then have "insort_key f a (sort_key g xs) = insort_key g a (sort_key g xs)" by simp
  with IH show ?case by simp
qed

lemma create_suffix_array_naive_nat:
  "create_suffix_array_naive txt = map int (suffix_offsets txt)"
proof -
  have "create_suffix_array_naive txt =
        map int (sort_key (\<lambda>x. py_slice_from txt (int x)) [0..<length txt])"
    by (simp add: create_suffix_array_naive_def py_range_0 sort_key_map)
  also have "sort_key (\<lambda>x. py_slice_from txt (int x)) [0..<length txt] =
             sort_key (\<lambda>x. drop x txt) [0..<length txt]"
    by (rule sort_key_cong_set) (simp add: py_slice_from_nat)
  finally show ?thesis by (simp add: suffix_offsets_def)
qed

lemma mset_suffix_offsets: "mset (suffix_offsets txt) = mset [0..<length txt]"
  by (simp add: suffix_offsets_def)

lemma set_suffix_offsets: "set (suffix_offsets txt) = {0..<length txt}"
  by (simp add: suffix_offsets_def)

lemma length_suffix_offsets: "length (suffix_offsets txt) = length txt"
  by (simp add: suffix_offsets_def)

lemma sorted_suffixes: "sorted (map (\<lambda>x. drop x txt) (suffix_offsets txt))"
  by (simp add: suffix_offsets_def)

subsection \<open>Strings below a pattern\<close>

lemma up_to_Nil: "up_to strict [] y \<longleftrightarrow> \<not> strict"
  by (simp add: up_to_def)

lemma up_to_Cons_Nil: "up_to strict (c # P) []"
  by (simp add: up_to_def)

lemma up_to_Cons_Cons:
  "up_to strict (c # P) (a # x) \<longleftrightarrow> a < c \<or> (a = c \<and> up_to strict P x)"
  by (auto simp: up_to_def)

lemma up_to_closed: "x \<le> y \<Longrightarrow> up_to strict P y \<Longrightarrow> up_to strict P x"
proof (induction P arbitrary: x y)
  case Nil
  then show ?case by (simp add: up_to_Nil)
next
  case (Cons c P)
  show ?case
  proof (cases x)
    case Nil
    then show ?thesis by (simp add: up_to_Cons_Nil)
  next
    case x: (Cons a x')
    with Cons.prems(1) obtain b y' where y: "y = b # y'" by (cases y) auto
    from Cons.prems x y have "a < b \<or> (a = b \<and> x' \<le> y')"
      and "b < c \<or> (b = c \<and> up_to strict P y')"
      by (simp_all add: up_to_Cons_Cons)
    then have "a < c \<or> (a = c \<and> up_to strict P x')"
      using Cons.IH by (metis order.strict_trans)
    with x show ?thesis by (simp add: up_to_Cons_Cons)
  qed
qed

lemma prefix_iff_up_to:
  "take (length P) y = P \<longleftrightarrow> up_to False P y \<and> \<not> up_to True P y"
proof -
  have "take (length P) y = P \<Longrightarrow> \<not> y < P"
  proof (induction P arbitrary: y)
    case Nil
    then show ?case by simp
  next
    case (Cons c P)
    then show ?case by (cases y) auto
  qed
  then show ?thesis by (auto simp: up_to_def)
qed

subsection \<open>Rows of a sorted list that satisfy a downward closed predicate\<close>

lemma sorted_closed_filter_Nil:
  assumes "sorted (y # ys)" and "\<forall>x z. x \<le> z \<longrightarrow> D z \<longrightarrow> D x" and "\<not> D y"
  shows "filter D ys = []"
  using assms by (auto simp: filter_empty_conv)

lemma sorted_closed_row:
  assumes "\<forall>x z. x \<le> z \<longrightarrow> D z \<longrightarrow> D x"
  shows "sorted ys \<Longrightarrow> r < length ys \<Longrightarrow> D (ys ! r) \<longleftrightarrow> r < length (filter D ys)"
proof (induction ys arbitrary: r)
  case Nil
  then show ?case by simp
next
  case (Cons y ys)
  show ?case
  proof (cases "D y")
    case True
    with Cons show ?thesis by (cases r) auto
  next
    case False
    have e: "filter D ys = []"
      by (rule sorted_closed_filter_Nil [OF Cons.prems(1) assms False])
    then have "\<not> D z" if "z \<in> set ys" for z using that by (auto simp: filter_empty_conv)
    with False e Cons.prems(2) show ?thesis by (cases r) auto
  qed
qed

lemma sorted_closed_count:
  assumes "\<forall>x z. x \<le> z \<longrightarrow> D z \<longrightarrow> D x"
  shows "length bs = length ys \<Longrightarrow> sorted ys \<Longrightarrow>
    length (filter (\<lambda>(b, y). b = c \<and> D y) (zip bs ys)) =
    count_list (take (length (filter D ys)) bs) c"
proof (induction bs ys rule: list_induct2)
  case Nil
  then show ?case by simp
next
  case (Cons b bs y ys)
  show ?case
  proof (cases "D y")
    case True
    with Cons show ?thesis by auto
  next
    case False
    have e: "filter D ys = []"
      by (rule sorted_closed_filter_Nil [OF Cons.prems assms False])
    then have "\<not> D z" if "z \<in> set ys" for z using that by (auto simp: filter_empty_conv)
    then have "filter (\<lambda>(b, y). b = c \<and> D y) (zip bs ys) = []"
      by (auto simp: filter_empty_conv dest: set_zip_rightD)
    with False e show ?thesis by simp
  qed
qed

subsection \<open>Counting the suffixes below a pattern that starts with a given symbol\<close>

lemma length_filter_perm:
  "mset xs = mset ys \<Longrightarrow> length (filter Q xs) = length (filter Q ys)"
  by (metis mset_filter size_mset)

lemma length_filter_map: "length (filter Q (map f xs)) = length (filter (\<lambda>x. Q (f x)) xs)"
  by (induction xs) auto

lemma length_filter_nth:
  "length (filter (\<lambda>i. Q (xs ! i)) [0..<length xs]) = length (filter Q xs)"
proof -
  have "length (filter Q (map (\<lambda>i. xs ! i) [0..<length xs])) =
        length (filter (\<lambda>i. Q (xs ! i)) [0..<length xs])"
    by (rule length_filter_map)
  then show ?thesis by (simp add: map_nth)
qed

lemma length_filter_disjoint:
  "(\<And>x. x \<in> set xs \<Longrightarrow> \<not> (Q x \<and> R x)) \<Longrightarrow>
   length (filter (\<lambda>x. Q x \<or> R x) xs) = length (filter Q xs) + length (filter R xs)"
  by (induction xs) auto

lemma zip_map_same: "zip (map f xs) (map g xs) = map (\<lambda>x. (f x, g x)) xs"
  by (induction xs) auto

lemma preceding_symbol:
  assumes "i < length txt"
  shows "the (py_index txt (int i - 1)) = (if i = 0 then last txt else txt ! (i - 1))"
  using assms by (simp add: py_index_pred nat_diff_distrib')

lemma shifted_count:
  assumes "txt \<noteq> []" and "c \<noteq> last txt"
  shows "length (filter (\<lambda>i. txt ! i = c \<and> U (Suc i)) [0..<length txt]) =
         length (filter (\<lambda>j. the (py_index txt (int j - 1)) = c \<and> U j) [0..<length txt])"
proof -
  from assms(1) obtain m where m: "length txt = Suc m" by (cases "txt") auto
  with assms have last: "txt ! m \<noteq> c" by (metis last_conv_nth diff_Suc_1)
  have "length (filter (\<lambda>i. txt ! i = c \<and> U (Suc i)) [0..<Suc m]) =
        length (filter (\<lambda>i. txt ! i = c \<and> U (Suc i)) [0..<m])"
    using last by simp
  moreover have "length (filter (\<lambda>j. the (py_index txt (int j - 1)) = c \<and> U j) [0..<Suc m]) =
        length (filter (\<lambda>i. txt ! i = c \<and> U (Suc i)) [0..<m])"
  proof -
    have "[0..<Suc m] = 0 # map Suc [0..<m]"
      by (simp add: upt_conv_Cons map_Suc_upt del: upt_Suc)
    moreover have "the (py_index txt (int 0 - 1)) \<noteq> c"
      using preceding_symbol [of 0 "txt"] m assms(2) by simp
    moreover have "length (filter (\<lambda>j. the (py_index txt (int j - 1)) = c \<and> U j)
                            (map Suc [0..<m])) =
          length (filter (\<lambda>i. txt ! i = c \<and> U (Suc i)) [0..<m])"
      unfolding length_filter_map
      by (rule arg_cong [where f = length], rule filter_cong)
         (auto simp: preceding_symbol m simp del: of_nat_Suc)
    ultimately show ?thesis by simp
  qed
  ultimately show ?thesis by (simp add: m)
qed

lemma suffixes_up_to_Cons:
  assumes "txt \<noteq> []" and "c \<noteq> last txt"
  shows "length (filter (\<lambda>i. up_to strict (c # P) (drop i txt)) [0..<length txt]) =
         length (filter (\<lambda>x. x < c) txt) +
         length (filter (\<lambda>j. the (py_index txt (int j - 1)) = c \<and> up_to strict P (drop j txt))
                   [0..<length txt])"
proof -
  let ?U = "\<lambda>j. up_to strict P (drop j txt)"
  have "filter (\<lambda>i. up_to strict (c # P) (drop i txt)) [0..<length txt] =
        filter (\<lambda>i. txt ! i < c \<or> (txt ! i = c \<and> ?U (Suc i))) [0..<length txt]"
  proof (rule filter_cong [OF refl])
    fix i assume "i \<in> set [0..<length txt]"
    then have "drop i txt = txt ! i # drop (Suc i) txt" by (simp add: Cons_nth_drop_Suc)
    then show "up_to strict (c # P) (drop i txt) \<longleftrightarrow>
               txt ! i < c \<or> (txt ! i = c \<and> ?U (Suc i))"
      by (simp add: up_to_Cons_Cons)
  qed
  then have "length (filter (\<lambda>i. up_to strict (c # P) (drop i txt)) [0..<length txt]) =
        length (filter (\<lambda>i. txt ! i < c) [0..<length txt]) +
        length (filter (\<lambda>i. txt ! i = c \<and> ?U (Suc i)) [0..<length txt])"
    by (simp add: length_filter_disjoint)
  also have "length (filter (\<lambda>i. txt ! i < c) [0..<length txt]) = length (filter (\<lambda>x. x < c) txt)"
    by (rule length_filter_nth)
  also have "length (filter (\<lambda>i. txt ! i = c \<and> ?U (Suc i)) [0..<length txt]) =
        length (filter (\<lambda>j. the (py_index txt (int j - 1)) = c \<and> ?U j) [0..<length txt])"
    by (rule shifted_count [OF assms])
  finally show ?thesis .
qed

lemma rows_up_to_Cons:
  assumes "txt \<noteq> []" and "c \<noteq> last txt"
  shows "rows_up_to strict txt (c # P) =
         length (filter (\<lambda>x. x < c) txt) +
         count_list (take (rows_up_to strict txt P)
                      (map (\<lambda>x. the (py_index txt (int x - 1))) (suffix_offsets txt))) c"
proof -
  let ?sa = "suffix_offsets txt"
  let ?S = "map (\<lambda>x. drop x txt) ?sa"
  let ?B = "map (\<lambda>x. the (py_index txt (int x - 1))) ?sa"
  let ?Q = "\<lambda>j. the (py_index txt (int j - 1)) = c \<and> up_to strict P (drop j txt)"
  have "rows_up_to strict txt (c # P) =
        length (filter (\<lambda>i. up_to strict (c # P) (drop i txt)) ?sa)"
    unfolding rows_up_to_def by (rule length_filter_map)
  also have "\<dots> = length (filter (\<lambda>i. up_to strict (c # P) (drop i txt)) [0..<length txt])"
    by (rule length_filter_perm [OF mset_suffix_offsets])
  also have "\<dots> = length (filter (\<lambda>x. x < c) txt) + length (filter ?Q [0..<length txt])"
    by (rule suffixes_up_to_Cons [OF assms])
  also have "length (filter ?Q [0..<length txt]) = length (filter ?Q ?sa)"
    by (rule length_filter_perm [OF mset_suffix_offsets [symmetric]])
  also have "\<dots> = length (filter (\<lambda>(b, y). b = c \<and> up_to strict P y) (zip ?B ?S))"
    unfolding zip_map_same length_filter_map by simp
  also have "\<dots> = count_list (take (length (filter (up_to strict P) ?S)) ?B) c"
    by (rule sorted_closed_count) (auto intro: up_to_closed simp: sorted_suffixes)
  finally show ?thesis by (simp add: rows_up_to_def)
qed

lemma rows_up_to_le: "rows_up_to strict txt P \<le> length txt"
  unfolding rows_up_to_def
  by (rule order_trans [OF length_filter_le]) (simp add: length_suffix_offsets)

lemma rows_up_to_mono: "rows_up_to True txt P \<le> rows_up_to False txt P"
  unfolding rows_up_to_def by (rule length_filter_mono) (simp add: up_to_def)

lemma rows_up_to_Nil: "rows_up_to strict txt [] = (if strict then 0 else length txt)"
  by (simp add: rows_up_to_def up_to_Nil length_suffix_offsets)

lemma row_has_prefix:
  assumes "r < length txt"
  shows "take (length P) (drop (suffix_offsets txt ! r) txt) = P \<longleftrightarrow>
         rows_up_to True txt P \<le> r \<and> r < rows_up_to False txt P"
proof -
  let ?S = "map (\<lambda>x. drop x txt) (suffix_offsets txt)"
  from assms have r: "r < length ?S" by (simp add: length_suffix_offsets)
  have "up_to strict P (?S ! r) \<longleftrightarrow> r < rows_up_to strict txt P" for strict
    unfolding rows_up_to_def
    by (rule sorted_closed_row [OF _ sorted_suffixes r]) (auto intro: up_to_closed)
  with r show ?thesis by (auto simp: prefix_iff_up_to)
qed

subsection \<open>Occurrences of a pattern and rows of the suffix array\<close>

lemma py_slice_nat:
  assumes "i \<le> length xs"
  shows "py_slice xs (int i) (int i + int k) = take k (drop i xs)"
proof -
  have a: "py_bound xs (int i) = i" using assms by (simp add: py_bound_def min_def)
  have "int i + int k = int (i + k)" by simp
  then have b: "py_bound xs (int i + int k) = min (i + k) (length xs)"
    unfolding py_bound_def Let_def by (simp only: min_def) auto
  show ?thesis
  proof (cases "i + k \<le> length xs")
    case True
    then show ?thesis by (simp add: py_slice_def a b min_def)
  next
    case False
    then have "take (length xs - i) (drop i xs) = take k (drop i xs)" by simp
    with False show ?thesis by (simp add: py_slice_def a b min_def)
  qed
qed

lemma set_occurrences:
  "set (occurrences txt p) = {int i |i. i < length txt \<and> take (length p) (drop i txt) = p}"
proof -
  have "set (occurrences txt p) =
        {j \<in> int ` {0..<length txt}. py_slice txt j (j + int (length p)) = p}"
    by (auto simp: occurrences_def py_range_0)
  also have "\<dots> = {int i |i. i < length txt \<and> take (length p) (drop i txt) = p}"
    by (auto simp: py_slice_nat)
  finally show ?thesis .
qed

lemma occurs_iff_rows:
  "(\<exists>i<length txt. take (length P) (drop i txt) = P) \<longleftrightarrow>
   rows_up_to True txt P < rows_up_to False txt P"
proof
  assume "\<exists>i<length txt. take (length P) (drop i txt) = P"
  then obtain i where i: "i < length txt" "take (length P) (drop i txt) = P" by blast
  then have "i \<in> set (suffix_offsets txt)" by (simp add: set_suffix_offsets)
  then obtain r where r: "r < length txt" "suffix_offsets txt ! r = i"
    by (auto simp: in_set_conv_nth length_suffix_offsets)
  with i row_has_prefix [OF r(1), of P] show "rows_up_to True txt P < rows_up_to False txt P"
    by simp
next
  assume lt: "rows_up_to True txt P < rows_up_to False txt P"
  let ?r = "rows_up_to True txt P"
  from lt rows_up_to_le [of False "txt" P] have r: "?r < length txt" by simp
  with lt row_has_prefix [OF r, of P]
  have "take (length P) (drop (suffix_offsets txt ! ?r) txt) = P" by simp
  moreover from r have "suffix_offsets txt ! ?r \<in> set (suffix_offsets txt)"
    by (simp add: length_suffix_offsets)
  then have "suffix_offsets txt ! ?r < length txt" by (simp add: set_suffix_offsets)
  ultimately show "\<exists>i<length txt. take (length P) (drop i txt) = P" by blast
qed

lemma occurrence_of_tail:
  assumes "i < length txt" and "take (length (R @ Q)) (drop i txt) = R @ Q" and "Q \<noteq> []"
  shows "\<exists>j<length txt. take (length Q) (drop j txt) = Q"
proof -
  from assms(2) have "length (take (length (R @ Q)) (drop i txt)) = length (R @ Q)"
    by (rule arg_cong)
  then have len: "length R + length Q \<le> length txt - i" by simp
  with assms(3) have j: "i + length R < length txt" by (cases Q) auto
  have "take (length Q) (drop (i + length R) txt) =
        drop (length R) (take (length R + length Q) (drop i txt))"
    by (simp add: drop_take add.commute)
  also have "\<dots> = Q" using assms(2) by simp
  finally show ?thesis using j by blast
qed

lemma occurrence_in_text:
  assumes "take (length P) (drop i txt) = P"
  shows "set P \<subseteq> set txt"
proof -
  have "set (take (length P) (drop i txt)) \<subseteq> set txt"
    by (meson set_take_subset set_drop_subset subset_trans)
  with assms show ?thesis by simp
qed

subsection \<open>Backward search with a zero-based rank\<close>

lemma bwt_nat:
  assumes "FMIndex_init TRank_new txt = Some idx"
  shows "bwt idx = map (\<lambda>x. the (py_index txt (int x - 1))) (suffix_offsets txt)"
  by (simp add: FMIndex_init_occ(2) [OF assms] create_suffix_array_naive_nat comp_def)

lemma backtrace_step_rows:
  assumes built: "FMIndex_init TRank_new txt = Some idx" and zb: "zero_based_rank idx"
    and ne: "txt \<noteq> []" and c: "c \<in> set txt" "c \<noteq> last txt"
  shows "backtrace_step idx c (int (rows_up_to True txt P)) (int (rows_up_to False txt P) - 1) =
         (int (rows_up_to True txt (c # P)), int (rows_up_to False txt (c # P)) - 1)"
proof -
  let ?C = "int (length (filter (\<lambda>x. x < c) txt))"
  have occ: "map_of (occ_lex_lower idx) c = Some ?C"
    using c(1) by (simp add: count_table_lookup [OF built])
  have len: "length (bwt idx) = length txt"
    by (rule bwt_same_symbols(2) [OF built])
  have rk: "rank_at_row (rank_cps idx) c (int k - 1) = int (count_list (take k (bwt idx)) c) - 1"
    if "k \<le> length txt" for k
  proof -
    from that len have "- 1 \<le> int k - 1 \<and> int k - 1 < int (length (bwt idx))" by simp
    with zb have "rank_at_row (rank_cps idx) c (int k - 1) =
        int (count_list (take (nat (int k - 1 + 1)) (bwt idx)) c) - 1"
      unfolding zero_based_rank_def by blast
    then show ?thesis by simp
  qed
  have step: "int (rows_up_to strict txt (c # P)) =
      ?C + int (count_list (take (rows_up_to strict txt P) (bwt idx)) c)" for strict
    by (simp add: rows_up_to_Cons [OF ne c(2)] bwt_nat [OF built])
  show ?thesis
    by (simp add: backtrace_step_def occ rk rows_up_to_le step)
qed

lemma backtrace_step_unknown:
  assumes "FMIndex_init TRank_new txt = Some idx" and "c \<notin> set txt"
  shows "backtrace_step idx c start en = (en + 1, en)"
  using assms(2) by (simp add: backtrace_step_def count_table_lookup [OF assms(1)])

lemma get_range_loop_rows:
  assumes built: "FMIndex_init TRank_new txt = Some idx" and zb: "zero_based_rank idx"
    and ne: "txt \<noteq> []"
  shows "last txt \<notin> set rs \<Longrightarrow>
    get_range_loop idx rs (int (rows_up_to True txt P)) (int (rows_up_to False txt P) - 1) = (s, e) \<Longrightarrow>
    (if rows_up_to True txt (rev rs @ P) < rows_up_to False txt (rev rs @ P)
     then s = int (rows_up_to True txt (rev rs @ P)) \<and> e = int (rows_up_to False txt (rev rs @ P)) - 1
     else e < s)"
proof (induction rs arbitrary: P)
  case Nil
  then show ?case by auto
next
  case (Cons c rs)
  let ?p = "rev (c # rs) @ P"
  have p: "?p = rev rs @ (c # P)" by simp
  have absent: "\<not> rows_up_to True txt ?p < rows_up_to False txt ?p"
    if "\<not> (\<exists>j<length txt. take (length (c # P)) (drop j txt) = c # P)"
  proof
    assume "rows_up_to True txt ?p < rows_up_to False txt ?p"
    then obtain i where "i < length txt" "take (length ?p) (drop i txt) = ?p"
      using occurs_iff_rows [of "txt" ?p] by blast
    then have "\<exists>j<length txt. take (length (c # P)) (drop j txt) = c # P"
      unfolding p by (rule occurrence_of_tail) simp
    with that show False by blast
  qed
  show ?case
  proof (cases "c \<in> set txt")
    case True
    from Cons.prems(1) have c: "c \<noteq> last txt" and rs: "last txt \<notin> set rs" by auto
    note st = backtrace_step_rows [OF built zb ne True c, of P]
    show ?thesis
    proof (cases "rows_up_to True txt (c # P) < rows_up_to False txt (c # P)")
      case lt: True
      with Cons.prems(2) st
      have "get_range_loop idx rs (int (rows_up_to True txt (c # P)))
              (int (rows_up_to False txt (c # P)) - 1) = (s, e)"
        by simp
      from Cons.IH [OF rs this] show ?thesis by (simp only: p)
    next
      case ge: False
      with Cons.prems(2) st have "e < s" by auto
      moreover from ge have "\<not> (\<exists>j<length txt. take (length (c # P)) (drop j txt) = c # P)"
        by (simp only: occurs_iff_rows) simp
      ultimately show ?thesis using absent by simp
    qed
  next
    case False
    with Cons.prems(2) have "e < s"
      by (simp add: backtrace_step_unknown [OF built])
    moreover have "\<not> (\<exists>j<length txt. take (length (c # P)) (drop j txt) = c # P)"
      using False occurrence_in_text [of "c # P" _ "txt"] by fastforce
    ultimately show ?thesis using absent by simp
  qed
qed

lemma set_take_drop:
  assumes "a + k \<le> length xs"
  shows "set (take k (drop a xs)) = {xs ! r |r. a \<le> r \<and> r < a + k}"
proof -
  have "take k (drop a xs) = map (\<lambda>i. xs ! (a + i)) [0..<k]"
    using assms by (intro nth_equalityI) auto
  then have eq: "set (take k (drop a xs)) = (\<lambda>i. xs ! (a + i)) ` {0..<k}" by simp
  show ?thesis
  proof (intro set_eqI iffI)
    fix x assume "x \<in> set (take k (drop a xs))"
    with eq obtain i where "x = xs ! (a + i)" "i < k" by auto
    then have "x = xs ! (a + i) \<and> a \<le> a + i \<and> a + i < a + k" by simp
    then show "x \<in> {xs ! r |r. a \<le> r \<and> r < a + k}" by blast
  next
    fix x assume "x \<in> {xs ! r |r. a \<le> r \<and> r < a + k}"
    then obtain r where "x = xs ! r" "a \<le> r" "r < a + k" by blast
    then have "x = xs ! (a + (r - a))" "r - a \<in> {0..<k}" by auto
    then show "x \<in> set (take k (drop a xs))" unfolding eq by (rule image_eqI)
  qed
qed

lemma FMIndex_init_rank:
  assumes "FMIndex_init TRank_new txt = Some idx"
  shows "rank_cps idx = TRank_new (bwt idx) (map fst (occ_lex_lower idx))"
  using assms by (auto simp: FMIndex_init_Some)

lemma zero_based_count_rank:
  assumes "FMIndex_init (count_rank 1) txt = Some idx"
  shows "zero_based_rank idx"
  by (simp add: zero_based_rank_def rank_at_row_def FMIndex_init_rank [OF assms] count_rank_def)

lemma find_sub_exact:
  assumes built: "FMIndex_init TRank_new txt = Some idx" and zb: "zero_based_rank idx"
    and ne: "txt \<noteq> []" and p: "last txt \<notin> set p"
  shows "set (find_sub idx p) = set (occurrences txt p) \<and> distinct (find_sub idx p)
       \<and> (contains_substring idx p \<longleftrightarrow> occurrences txt p \<noteq> [])"
proof -
  let ?lo = "rows_up_to True txt p" and ?hi = "rows_up_to False txt p"
  let ?sa = "suffix_offsets txt"
  have t: "text idx = txt" by (rule FMIndex_init_fields(1) [OF built])
  have sa: "suffix_array idx = map int ?sa"
    by (simp add: FMIndex_init_fields(2) [OF built] create_suffix_array_naive_nat)
  obtain s e where l: "get_range_loop idx (rev p) 0 (int (length txt) - 1) = (s, e)"
    by (cases "get_range_loop idx (rev p) 0 (int (length txt) - 1)")
  then have "get_range_loop idx (rev p) (int (rows_up_to True txt []))
      (int (rows_up_to False txt []) - 1) = (s, e)"
    by (simp add: rows_up_to_Nil)
  from get_range_loop_rows [OF built zb ne _ this] p
  have rows: "if ?lo < ?hi then s = int ?lo \<and> e = int ?hi - 1 else e < s" by simp
  have r: "get_range idx p = (s, e + 1)" by (simp add: get_range_def t l)
  have occ: "set (occurrences txt p) =
      {int i |i. i < length txt \<and> take (length p) (drop i txt) = p}"
    by (rule set_occurrences)
  show ?thesis
  proof (cases "?lo < ?hi")
    case True
    with rows have se: "s = int ?lo" "e + 1 = int ?hi" by simp_all
    have hi: "?hi \<le> length txt" by (rule rows_up_to_le)
    from True have "int ?lo + int (?hi - ?lo) = int ?hi" by simp
    with py_slice_nat [of ?lo "map int ?sa" "?hi - ?lo"] True hi
    have f: "find_sub idx p = take (?hi - ?lo) (drop ?lo (map int ?sa))"
      by (simp add: find_sub_def r se sa length_suffix_offsets)
    have "set (find_sub idx p) = {map int ?sa ! r |r. ?lo \<le> r \<and> r < ?lo + (?hi - ?lo)}"
      unfolding f using True hi by (intro set_take_drop) (simp add: length_suffix_offsets)
    also have "\<dots> = {int i |i. i < length txt \<and> take (length p) (drop i txt) = p}"
    proof (intro set_eqI iffI)
      fix x assume "x \<in> {map int ?sa ! r |r. ?lo \<le> r \<and> r < ?lo + (?hi - ?lo)}"
      then obtain r where x: "x = map int ?sa ! r" and r: "?lo \<le> r" "r < ?hi" by auto
      from r hi have rn: "r < length txt" by simp
      then have "?sa ! r \<in> set ?sa" by (simp add: length_suffix_offsets)
      then have "?sa ! r < length txt" by (simp add: set_suffix_offsets)
      moreover from row_has_prefix [OF rn, of p] r
      have "take (length p) (drop (?sa ! r) txt) = p" by simp
      moreover from x rn have "x = int (?sa ! r)" by (simp add: length_suffix_offsets)
      ultimately show "x \<in> {int i |i. i < length txt \<and> take (length p) (drop i txt) = p}"
        by blast
    next
      fix x assume "x \<in> {int i |i. i < length txt \<and> take (length p) (drop i txt) = p}"
      then obtain i where x: "x = int i" and i: "i < length txt"
        "take (length p) (drop i txt) = p" by blast
      from i(1) have "i \<in> set ?sa" by (simp add: set_suffix_offsets)
      then obtain r where r: "r < length txt" "?sa ! r = i"
        by (auto simp: in_set_conv_nth length_suffix_offsets)
      with i(2) row_has_prefix [OF r(1), of p] have "?lo \<le> r" "r < ?hi" by simp_all
      moreover from x r have "x = map int ?sa ! r" by (simp add: length_suffix_offsets)
      ultimately show "x \<in> {map int ?sa ! r |r. ?lo \<le> r \<and> r < ?lo + (?hi - ?lo)}"
        by auto
    qed
    finally have "set (find_sub idx p) = set (occurrences txt p)" by (simp only: occ)
    moreover have "distinct (find_sub idx p)"
      unfolding f using distinct_create_suffix_array_naive [of "txt"]
      by (simp add: create_suffix_array_naive_nat)
    moreover from True have "\<exists>i<length txt. take (length p) (drop i txt) = p"
      by (simp only: occurs_iff_rows)
    then have "occurrences txt p \<noteq> []"
      using occ by (metis (mono_tags, lifting) empty_iff empty_set mem_Collect_eq)
    moreover from True have "contains_substring idx p"
      by (simp add: contains_substring_def r se)
    ultimately show ?thesis by simp
  next
    case False
    with rows have "e < s" by simp
    then have "find_sub idx p = []" "\<not> contains_substring idx p"
      by (simp_all add: find_sub_def contains_substring_def r)
    moreover from False have "\<not> (\<exists>i<length txt. take (length p) (drop i txt) = p)"
      by (simp only: occurs_iff_rows) simp
    then have "set (occurrences txt p) = {}" unfolding occ by blast
    then have "occurrences txt p = []" by simp
    ultimately show ?thesis by simp
  qed
qed

subsection \<open>Overlaps do not depend on which zero-based rank is used\<close>

lemma get_read_at_offset_text:
  assumes "text idx = text idx'"
  shows "get_read_at_offset idx i = get_read_at_offset idx' i"
  unfolding get_read_at_offset_def assms by (rule refl)

lemma reads_at_text:
  assumes "text idx = text idx'"
  shows "reads_at idx k ov = reads_at idx' k ov"
  by (induction ov)
     (simp_all add: get_read_at_offset_text [OF assms] cong: option.case_cong)

lemma get_prefix_overlaps_loop_any_rank:
  assumes built: "FMIndex_init TRank_new txt = Some idx" and zb: "zero_based_rank idx"
    and built': "FMIndex_init TRank_new' txt = Some idx'" and zb': "zero_based_rank idx'"
    and ne: "txt \<noteq> []"
  shows "last txt \<notin> set rs \<Longrightarrow>
    get_prefix_overlaps_loop idx len_p m rs
      (int (rows_up_to True txt P)) (int (rows_up_to False txt P) - 1) k acc =
    get_prefix_overlaps_loop idx' len_p m rs
      (int (rows_up_to True txt P)) (int (rows_up_to False txt P) - 1) k acc"
proof (induction rs arbitrary: P k acc)
  case Nil
  then show ?case by simp
next
  case (Cons c rs)
  have t: "text idx = text idx'" and sa: "suffix_array idx = suffix_array idx'"
    using FMIndex_init_fields [OF built] FMIndex_init_fields [OF built'] by simp_all
  have sep: "elements_preceeded_by_sep idx a b = elements_preceeded_by_sep idx' a b" for a b
    by (simp add: elements_preceeded_by_sep_def t sa)
  show ?case
  proof (cases "c \<in> set txt")
    case True
    from Cons.prems have c: "c \<noteq> last txt" and rs: "last txt \<notin> set rs" by auto
    note st = backtrace_step_rows [OF built zb ne True c, of P]
      backtrace_step_rows [OF built' zb' ne True c, of P]
    show ?thesis
      by (simp add: st sep reads_at_text [OF t] Cons.IH [OF rs] cong: option.case_cong)
  next
    case False
    then show ?thesis
      by (simp add: backtrace_step_unknown [OF built] backtrace_step_unknown [OF built'])
  qed
qed

lemma get_prefix_overlaps_any_rank:
  assumes "FMIndex_init TRank_new txt = Some idx" and "zero_based_rank idx"
    and "FMIndex_init TRank_new' txt = Some idx'" and "zero_based_rank idx'"
    and "txt \<noteq> []" and "last txt \<notin> set p"
  shows "get_prefix_overlaps idx p m = get_prefix_overlaps idx' p m"
proof -
  have t: "text idx = txt" "text idx' = txt"
    using FMIndex_init_fields(1) assms(1,3) by blast+
  have "get_prefix_overlaps_loop idx (int (length p)) m (rev p)
      (int (rows_up_to True txt [])) (int (rows_up_to False txt []) - 1) 0 [] =
    get_prefix_overlaps_loop idx' (int (length p)) m (rev p)
      (int (rows_up_to True txt [])) (int (rows_up_to False txt []) - 1) 0 []"
    using assms(6) by (intro get_prefix_overlaps_loop_any_rank [OF assms(1-5)]) simp
  then show ?thesis by (simp add: get_prefix_overlaps_def t rows_up_to_Nil)
qed

section \<open>The claims\<close>

text \<open>
  C1, amended.  For every text that ends with the sentinel and every pattern that does not
  contain the sentinel, in an index whose rank is zero-based (the occurrences of the symbol
  in \<^verbatim>\<open>BWT[0..row]\<close> minus one, the base for which \<^verbatim>\<open>backtrace_step\<close> adds 1),
  \<^verbatim>\<open>find(p)\<close> returns exactly the offsets \<open>i\<close> with \<^verbatim>\<open>text[i:i+len(p)] == p\<close>, each
  once, and \<^verbatim>\<open>contains_substring(p)\<close> is true exactly when there is one.
\<close>

theorem find_complete_without_sentinel:
  assumes "FMIndex_init TRank_new txt = Some idx" and "zero_based_rank idx"
    and "txt \<noteq> []" and "last txt = CHR ''$''" and "CHR ''$'' \<notin> set p"
  shows "set (find_sub idx p) = set (occurrences txt p) \<and> distinct (find_sub idx p)
       \<and> (contains_substring idx p \<longleftrightarrow> occurrences txt p \<noteq> [])"
  using find_sub_exact [OF assms(1,2,3), of p] assms(4,5) by simp

theorem find_complete_without_sentinel_witness:
  "FMIndex_init (count_rank 1) ''ACGTACGA$TACGAGG$'' = Some two_reads_index
   \<and> zero_based_rank two_reads_index
   \<and> ''ACGTACGA$TACGAGG$'' \<noteq> [] \<and> last ''ACGTACGA$TACGAGG$'' = CHR ''$''
   \<and> CHR ''$'' \<notin> set ''CGA''
   \<and> find_sub two_reads_index ''CGA'' = [5, 11]
   \<and> occurrences ''ACGTACGA$TACGAGG$'' ''CGA'' = [5, 11]
   \<and> set (find_sub two_reads_index ''CGA'') = set (occurrences ''ACGTACGA$TACGAGG$'' ''CGA'')
   \<and> distinct (find_sub two_reads_index ''CGA'')
   \<and> contains_substring two_reads_index ''CGA''"
proof -
  note b = FMIndex_init_two_reads [of "count_rank 1"]
  note z = zero_based_count_rank [OF b]
  have h: "''ACGTACGA$TACGAGG$'' \<noteq> []" "last ''ACGTACGA$TACGAGG$'' = CHR ''$''"
    "CHR ''$'' \<notin> set ''CGA''" by simp_all
  have e1: "find_sub two_reads_index ''CGA'' = [5, 11]" by code_simp
  have e2: "occurrences ''ACGTACGA$TACGAGG$'' ''CGA'' = [5, 11]" by code_simp
  from find_complete_without_sentinel [OF b z h] b z h e1 e2 show ?thesis by simp
qed

text \<open>
  C1 as stated is about every pattern.  A pattern that contains the sentinel is matched
  across the end of a sequence: in \<^verbatim>\<open>"A$"\<close> the pattern \<^verbatim>\<open>"$A"\<close> occurs nowhere and is
  found at offset 1; in \<^verbatim>\<open>"B$A$"\<close> it occurs at offset 1 and is found at offset 3, and
  \<^verbatim>\<open>"B$A"\<close>, which occurs at offset 0, is not found.  With the count itself as rank
  (base 0) \<^verbatim>\<open>"$A"\<close> is found at offset 2 in \<^verbatim>\<open>"B$A$"\<close>.
\<close>

theorem find_across_sentinel_counterexample:
  "FMIndex_init (count_rank 1) ''A$'' = Some single_read_index
   \<and> find_sub single_read_index ''$A'' = [1]
   \<and> contains_substring single_read_index ''$A''
   \<and> occurrences ''A$'' ''$A'' = []
   \<and> FMIndex_init (count_rank 1) ''B$A$'' = Some short_reads_index
   \<and> find_sub short_reads_index ''$A'' = [3]
   \<and> occurrences ''B$A$'' ''$A'' = [1]
   \<and> \<not> contains_substring short_reads_index ''B$A''
   \<and> occurrences ''B$A$'' ''B$A'' = [0]
   \<and> FMIndex_init (count_rank 0) ''B$A$'' =
        Some (short_reads_index\<lparr>rank_cps := count_rank 0 ''AB$$'' ''$AB''\<rparr>)
   \<and> find_sub (short_reads_index\<lparr>rank_cps := count_rank 0 ''AB$$'' ''$AB''\<rparr>) ''$A'' = [2]"
proof -
  have "find_sub single_read_index ''$A'' = [1]" by code_simp
  moreover have "contains_substring single_read_index ''$A''" by code_simp
  moreover have "occurrences ''A$'' ''$A'' = []" by code_simp
  moreover have "find_sub short_reads_index ''$A'' = [3]" by code_simp
  moreover have "occurrences ''B$A$'' ''$A'' = [1]" by code_simp
  moreover have "\<not> contains_substring short_reads_index ''B$A''" by code_simp
  moreover have "occurrences ''B$A$'' ''B$A'' = [0]" by code_simp
  moreover have "find_sub (short_reads_index\<lparr>rank_cps := count_rank 0 ''AB$$'' ''$AB''\<rparr>) ''$A'' = [2]"
    by code_simp
  ultimately show ?thesis
    using FMIndex_init_single [of "count_rank 1"] FMIndex_init_short_reads [of "count_rank 1"]
      FMIndex_init_short_reads [of "count_rank 0"]
    by simp
qed

text \<open>
  C2, amended.  For the text \<^verbatim>\<open>"ACGTACGA$TACGAGG$"\<close> indexed with a zero-based rank,
  \<^verbatim>\<open>get_prefix_overlaps("ACGTACGA", 3)\<close> returns the pair \<^verbatim>\<open>("TACGAGG", k)\<close> for every
  \<open>k\<close> in \<open>[3, 8)\<close> such that the last \<open>k\<close> characters of \<^verbatim>\<open>"ACGTACGA"\<close> equal the
  first \<open>k\<close> characters of \<^verbatim>\<open>"TACGAGG"\<close>.  The only such \<open>k\<close> is 5: the pair with overlap
  length 5 is the result.
\<close>

theorem overlap_scenario:
  assumes "FMIndex_init TRank_new ''ACGTACGA$TACGAGG$'' = Some idx" and "zero_based_rank idx"
  shows "filter (\<lambda>k. py_slice_from ''ACGTACGA'' (- k) = py_slice ''TACGAGG'' 0 k) (py_range 3 8) = [5]
       \<and> get_prefix_overlaps idx ''ACGTACGA'' 3 = Some [(''TACGAGG'', 5)]"
proof -
  have "get_prefix_overlaps idx ''ACGTACGA'' 3 = get_prefix_overlaps two_reads_index ''ACGTACGA'' 3"
    by (rule get_prefix_overlaps_any_rank
          [OF assms FMIndex_init_two_reads [of "count_rank 1"]
              zero_based_count_rank [OF FMIndex_init_two_reads [of "count_rank 1"]]])
       simp_all
  moreover have "get_prefix_overlaps two_reads_index ''ACGTACGA'' 3 = Some [(''TACGAGG'', 5)]"
    by code_simp
  moreover have "filter (\<lambda>k. py_slice_from ''ACGTACGA'' (- k) = py_slice ''TACGAGG'' 0 k)
      (py_range 3 8) = [5]" by code_simp
  ultimately show ?thesis by simp
qed

theorem overlap_scenario_witness:
  "FMIndex_init (count_rank 1) ''ACGTACGA$TACGAGG$'' = Some two_reads_index
   \<and> zero_based_rank two_reads_index
   \<and> get_prefix_overlaps two_reads_index ''ACGTACGA'' 3 = Some [(''TACGAGG'', 5)]"
  using overlap_scenario [OF FMIndex_init_two_reads [of "count_rank 1"]
          zero_based_count_rank [OF FMIndex_init_two_reads [of "count_rank 1"]]]
    FMIndex_init_two_reads [of "count_rank 1"]
    zero_based_count_rank [OF FMIndex_init_two_reads [of "count_rank 1"]]
  by simp

text \<open>
  C2 as stated asks for the pair of overlap length 4.  The last four characters of
  \<^verbatim>\<open>"ACGTACGA"\<close> are \<^verbatim>\<open>"ACGA"\<close>, the first four of \<^verbatim>\<open>"TACGAGG"\<close> are \<^verbatim>\<open>"TACG"\<close>, and
  the call returns the pair of length 5 only.
\<close>

theorem overlap_scenario_counterexample:
  "FMIndex_init (count_rank 1) ''ACGTACGA$TACGAGG$'' = Some two_reads_index
   \<and> py_slice_from ''ACGTACGA'' (- 4) = ''ACGA''
   \<and> py_slice ''TACGAGG'' 0 4 = ''TACG''
   \<and> get_prefix_overlaps two_reads_index ''ACGTACGA'' 3 = Some [(''TACGAGG'', 5)]
   \<and> (''TACGAGG'', 4) \<notin> set [(''TACGAGG'', 5::int)]"
proof -
  have "py_slice_from ''ACGTACGA'' (- 4) = ''ACGA''" by code_simp
  moreover have "py_slice ''TACGAGG'' 0 4 = ''TACG''" by code_simp
  moreover have "get_prefix_overlaps two_reads_index ''ACGTACGA'' 3 = Some [(''TACGAGG'', 5)]"
    by code_simp
  ultimately show ?thesis using FMIndex_init_two_reads [of "count_rank 1"] by simp
qed

text \<open>
  C3, amended.  Index construction checks nothing about its input and raises nothing: for
  every rank constructor and every text, the empty one and one with a misplaced or missing
  sentinel included, it returns an index over that text, with a suffix array holding the
  offsets \<open>0, \<dots>, n - 1\<close> and a BWT of the length of the text.
\<close>

theorem construction_never_rejects:
  "\<exists>idx. FMIndex_init TRank_new txt = Some idx \<and> text idx = txt
         \<and> set (suffix_array idx) = {0..<int (length txt)}
         \<and> length (bwt idx) = length txt"
  by (simp add: FMIndex_init_Some set_create_suffix_array_naive
        length_create_suffix_array_naive)

text \<open>
  C3 as stated asks for an error on the empty text and on a text whose sentinel is inside a
  sequence.  Both are indexed.
\<close>

theorem construction_never_rejects_counterexample:
  "FMIndex_init (count_rank 1) [] =
     Some \<lparr>text = [], suffix_array = [], bwt = [], occ_lex_lower = [],
           rank_cps = count_rank 1 [] []\<rparr>
   \<and> FMIndex_init (count_rank 1) ''A$B'' =
     Some \<lparr>text = ''A$B'', suffix_array = [1, 0, 2], bwt = ''AB$'',
           occ_lex_lower = [(CHR ''$'', 0), (CHR ''A'', 1), (CHR ''B'', 2)],
           rank_cps = count_rank 1 ''AB$'' ''$AB''\<rparr>"
proof -
  have "create_suffix_array_naive ''A$B'' = [1, 0, 2]" by code_simp
  moreover have "map (\<lambda>i. the (py_index ''A$B'' (i - 1))) [1, 0, 2] = ''AB$''" by code_simp
  moreover have "n_less_than ''AB$'' = [(CHR ''$'', 0), (CHR ''A'', 1), (CHR ''B'', 2)]"
    by code_simp
  ultimately show ?thesis
    by (simp add: FMIndex_init_Some create_suffix_array_naive_Nil n_less_than_Nil)
qed

text \<open>
  C4.  For every built index and every pattern with at least one symbol that is not a key of
  the count table (the indexed alphabet), backward search ends with an empty range: the start
  returned by \<^verbatim>\<open>get_range\<close> is not below the end, \<^verbatim>\<open>contains_substring\<close> is false and
  \<^verbatim>\<open>find\<close> is empty.  The three are total functions: nothing is raised.
\<close>

theorem unknown_symbol_never_matches:
  assumes "FMIndex_init TRank_new txt = Some idx"
    and "c \<in> set p" and "c \<notin> set (map fst (occ_lex_lower idx))"
  shows "snd (get_range idx p) \<le> fst (get_range idx p)
       \<and> \<not> contains_substring idx p \<and> find_sub idx p = []"
proof -
  obtain s e where l: "get_range_loop idx (rev p) 0 (int (length (text idx)) - 1) = (s, e)"
    by (cases "get_range_loop idx (rev p) 0 (int (length (text idx)) - 1)")
  from assms(3) have "map_of (occ_lex_lower idx) c = None"
    by (simp add: map_of_eq_None_iff)
  with assms(2) l have "s > e" by (intro get_range_loop_unknown_symbol [of c "rev p"]) auto
  with l show ?thesis by (simp add: get_range_def contains_substring_def find_sub_def)
qed

theorem unknown_symbol_never_matches_witness:
  "FMIndex_init (count_rank 1) ''A$'' = Some single_read_index
   \<and> CHR ''x'' \<in> set ''xA''
   \<and> CHR ''x'' \<notin> set (map fst (occ_lex_lower single_read_index))
   \<and> snd (get_range single_read_index ''xA'') \<le> fst (get_range single_read_index ''xA'')
   \<and> \<not> contains_substring single_read_index ''xA''
   \<and> find_sub single_read_index ''xA'' = []"
  using unknown_symbol_never_matches [OF FMIndex_init_single [of "count_rank 1"], of "CHR ''x''" "''xA''"]
    FMIndex_init_single [of "count_rank 1"]
  by simp

text \<open>
  C5.  For every built index, every pattern \<open>p\<close> and every symbol \<open>c\<close>: when
  \<^verbatim>\<open>get_range(p)\<close> is an empty range (its start is not below its end), so is
  \<^verbatim>\<open>get_range(c + p)\<close>, and \<open>c + p\<close> is neither contained nor found.
\<close>

theorem empty_range_monotone:
  assumes "FMIndex_init TRank_new txt = Some idx"
    and "snd (get_range idx p) \<le> fst (get_range idx p)"
  shows "snd (get_range idx (c # p)) \<le> fst (get_range idx (c # p))
       \<and> \<not> contains_substring idx (c # p) \<and> find_sub idx (c # p) = []"
proof -
  let ?n = "int (length (text idx)) - 1"
  have "snd (get_range idx (c # p)) \<le> fst (get_range idx (c # p))"
  proof (cases "p = []")
    case True
    with assms(2) have "text idx = []" by (simp add: get_range_def)
    with FMIndex_init_fields(1) [OF assms(1)] have "txt = []" by simp
    with FMIndex_init_occ [OF assms(1)] have "occ_lex_lower idx = []"
      by (simp add: create_suffix_array_naive_Nil n_less_than_Nil)
    with True show ?thesis by (simp add: get_range_def backtrace_step_def)
  next
    case False
    obtain s e where l: "get_range_loop idx (rev p) 0 ?n = (s, e)"
      by (cases "get_range_loop idx (rev p) 0 ?n")
    with assms(2) have "s > e" by (simp add: get_range_def)
    with False l have "get_range_loop idx (rev p @ [c]) 0 ?n = (s, e)"
      by (intro get_range_loop_snoc_same) auto
    with \<open>s > e\<close> show ?thesis by (simp add: get_range_def)
  qed
  then show ?thesis
    by (auto simp: contains_substring_def find_sub_def split: prod.splits)
qed

theorem empty_range_monotone_witness:
  "FMIndex_init (count_rank 1) ''ACGTACGA$TACGAGG$'' = Some two_reads_index
   \<and> snd (get_range two_reads_index ''AA'') \<le> fst (get_range two_reads_index ''AA'')
   \<and> snd (get_range two_reads_index ''CAA'') \<le> fst (get_range two_reads_index ''CAA'')
   \<and> \<not> contains_substring two_reads_index ''CAA''
   \<and> find_sub two_reads_index ''CAA'' = []"
proof -
  have h: "snd (get_range two_reads_index ''AA'') \<le> fst (get_range two_reads_index ''AA'')"
    by code_simp
  show ?thesis
    using empty_range_monotone [OF FMIndex_init_two_reads [of "count_rank 1"] h, of "CHR ''C''"]
      FMIndex_init_two_reads [of "count_rank 1"] h
    by simp
qed

text \<open>
  C6, amended.  For every index built over a non-empty text of length \<open>n\<close>, with \<open>g\<close>
  the lexicographically greatest symbol of the text: \<open>C[g]\<close> plus the number of occurrences
  of \<open>g\<close> equals \<open>n\<close>; and \<open>C\<close> is non-decreasing in the order of the symbols.
\<close>

theorem count_table_invariant:
  assumes "FMIndex_init TRank_new txt = Some idx" and "txt \<noteq> []"
  shows "(\<exists>v. map_of (occ_lex_lower idx) (Max (set txt)) = Some v
            \<and> v + int (count_list txt (Max (set txt))) = int (length txt))
       \<and> (\<forall>c1 c2 v1 v2. map_of (occ_lex_lower idx) c1 = Some v1
            \<and> map_of (occ_lex_lower idx) c2 = Some v2 \<and> c1 \<le> c2 \<longrightarrow> v1 \<le> v2)"
proof (intro conjI allI impI)
  from assms(2) have "Max (set txt) \<in> set txt" by (intro Max_in) auto
  then have "map_of (occ_lex_lower idx) (Max (set txt)) =
      Some (int (length (filter (\<lambda>x. x < Max (set txt)) txt)))"
    by (simp add: count_table_lookup [OF assms(1)])
  moreover have "int (length (filter (\<lambda>x. x < Max (set txt)) txt))
      + int (count_list txt (Max (set txt))) = int (length txt)"
    using below_greatest [OF assms(2)] by (simp only: of_nat_add [symmetric])
  ultimately show "\<exists>v. map_of (occ_lex_lower idx) (Max (set txt)) = Some v
            \<and> v + int (count_list txt (Max (set txt))) = int (length txt)"
    by simp
next
  fix c1 c2 v1 v2
  assume a: "map_of (occ_lex_lower idx) c1 = Some v1
            \<and> map_of (occ_lex_lower idx) c2 = Some v2 \<and> c1 \<le> c2"
  then have "v1 = int (length (filter (\<lambda>x. x < c1) txt))"
    and "v2 = int (length (filter (\<lambda>x. x < c2) txt))"
    by (auto simp: count_table_lookup [OF assms(1)] split: if_splits)
  moreover from a have "length (filter (\<lambda>x. x < c1) txt) \<le> length (filter (\<lambda>x. x < c2) txt)"
    by (intro length_filter_mono) auto
  ultimately show "v1 \<le> v2" by simp
qed

theorem count_table_invariant_witness:
  "FMIndex_init (count_rank 1) ''AB$'' = Some three_symbol_index \<and> ''AB$'' \<noteq> []
   \<and> map_of (occ_lex_lower three_symbol_index) CHR ''B'' = Some 2
   \<and> 2 + int (count_list ''AB$'' CHR ''B'') = int (length ''AB$'')
   \<and> map_of (occ_lex_lower three_symbol_index) CHR ''A'' = Some 1
   \<and> CHR ''A'' \<le> CHR ''B'' \<and> (1::int) \<le> 2"
  using count_table_invariant [OF FMIndex_init_three_symbols [of "count_rank 1"]] FMIndex_init_three_symbols [of "count_rank 1"] Max_AB
  by simp

text \<open>
  C6 as stated adds the whole table: over \<^verbatim>\<open>"AB$"\<close> the entries are 0, 1 and 2, and with
  the one occurrence of \<^verbatim>\<open>"B"\<close> the sum is 4, not the length 3.
\<close>

theorem count_table_sum_counterexample:
  "FMIndex_init (count_rank 1) ''AB$'' = Some three_symbol_index
   \<and> Max (set ''AB$'') = CHR ''B''
   \<and> sum_list (map snd (occ_lex_lower three_symbol_index)) + int (count_list ''AB$'' CHR ''B'')
       \<noteq> int (length ''AB$'')"
  using FMIndex_init_three_symbols [of "count_rank 1"] Max_AB by simp

text \<open>
  C7.  For every built index, every pattern \<open>p\<close> and every minimum overlap length
  \<open>m\<close>, \<^verbatim>\<open>get_prefix_overlaps(p, m)\<close> returns a list (it raises nothing), and every
  pair \<open>(read, overlap_len)\<close> in it has \<open>m \<le> overlap_len < len(p)\<close>; so no pair has
  the full length of \<open>p\<close>.
\<close>

theorem overlap_lengths_in_range:
  assumes "FMIndex_init TRank_new txt = Some idx"
  shows "\<exists>res. get_prefix_overlaps idx p m = Some res
           \<and> list_all (\<lambda>(r, overlap_len). m \<le> overlap_len \<and> overlap_len < int (length p)) res"
proof -
  obtain res where res: "get_prefix_overlaps idx p m = Some res"
    unfolding get_prefix_overlaps_def
    using get_prefix_overlaps_loop_Some [OF FMIndex_init_offsets_in_text [OF assms]] by blast
  then have "list_all (\<lambda>(r, n). m \<le> n \<and> n < int (length p)) res"
    unfolding get_prefix_overlaps_def by (rule get_prefix_overlaps_loop_lengths) simp
  with res show ?thesis by simp
qed

theorem overlap_lengths_in_range_witness:
  "FMIndex_init (count_rank 1) ''ACGTACGA$TACGAGG$'' = Some two_reads_index
   \<and> get_prefix_overlaps two_reads_index ''ACGTACGA'' 3 = Some [(''TACGAGG'', 5)]
   \<and> list_all (\<lambda>(r, overlap_len). 3 \<le> overlap_len \<and> overlap_len < int (length ''ACGTACGA''))
         [(''TACGAGG'', 5)]"
proof -
  have h: "get_prefix_overlaps two_reads_index ''ACGTACGA'' 3 = Some [(''TACGAGG'', 5)]"
    by code_simp
  show ?thesis
    using overlap_lengths_in_range [OF FMIndex_init_two_reads [of "count_rank 1"], of "''ACGTACGA''" 3]
      FMIndex_init_two_reads [of "count_rank 1"] h
    by simp
qed

text \<open>
  C8.  For every index built over a non-empty text of length \<open>n\<close>, the empty pattern
  matches everywhere: \<^verbatim>\<open>get_range("")\<close> is the whole half-open range \<open>[0, n)\<close>,
  \<^verbatim>\<open>find("")\<close> is the suffix array, that is each of the \<open>n\<close> text offsets once, and
  \<^verbatim>\<open>contains_substring("")\<close> is true.
\<close>

theorem empty_pattern_matches_everywhere:
  assumes "FMIndex_init TRank_new txt = Some idx" and "txt \<noteq> []"
  shows "get_range idx [] = (0, int (length txt))
       \<and> find_sub idx [] = suffix_array idx
       \<and> set (find_sub idx []) = {0..<int (length txt)}
       \<and> distinct (find_sub idx [])
       \<and> contains_substring idx []"
proof -
  have t: "text idx = txt" and sa: "suffix_array idx = create_suffix_array_naive txt"
    using assms(1) by (rule FMIndex_init_fields)+
  have r: "get_range idx [] = (0, int (length txt))"
    by (simp add: get_range_def t)
  have f: "find_sub idx [] = suffix_array idx"
    using assms(2) by (simp add: find_sub_def r sa py_slice_all [of "create_suffix_array_naive txt", simplified length_create_suffix_array_naive])
  show ?thesis
    using assms(2)
    by (simp add: r f contains_substring_def sa set_create_suffix_array_naive
          distinct_create_suffix_array_naive)
qed

theorem empty_pattern_matches_everywhere_witness:
  "FMIndex_init (count_rank 1) ''A$'' = Some single_read_index \<and> ''A$'' \<noteq> []
   \<and> get_range single_read_index [] = (0, 2)
   \<and> find_sub single_read_index [] = [1, 0]
   \<and> contains_substring single_read_index []"
  using empty_pattern_matches_everywhere [OF FMIndex_init_single [of "count_rank 1"]] FMIndex_init_single [of "count_rank 1"]
  by simp

text \<open>
  C9.  In an index built over a non-empty text that ends with the sentinel, the symbol read
  before offset 0 is \<^verbatim>\<open>text[-1]\<close>, the final sentinel.  So offset 0 counts as preceded by a
  sentinel: \<^verbatim>\<open>elements_preceeded_by_sep\<close> keeps it whenever the rows it is given hold it,
  \<^verbatim>\<open>find_prefixes\<close> keeps it whenever \<^verbatim>\<open>find\<close> returns it, and
  \<^verbatim>\<open>get_prefix_overlaps(p, m)\<close> reports the read at offset 0 with overlap length \<open>k\<close>
  whenever \<open>m \<le> k < len(p)\<close> and the range reached after \<open>k\<close> symbols is not empty and
  holds offset 0.
\<close>

theorem offset_zero_counts_as_sentinel_preceded:
  assumes "FMIndex_init TRank_new txt = Some idx" and "txt \<noteq> []" and "last txt = CHR ''$''"
  shows "py_index (text idx) (0 - 1) = Some CHR ''$''
   \<and> (0 \<in> set (py_slice (suffix_array idx) start (en + 1)) \<longrightarrow>
        (\<exists>r. elements_preceeded_by_sep idx start en = Some r \<and> 0 \<in> set r))
   \<and> (0 \<in> set (find_sub idx p) \<longrightarrow> (\<exists>r. find_prefixes idx p = Some r \<and> 0 \<in> set r))
   \<and> (0 < k \<and> m \<le> int k \<and> k < length p
        \<and> get_range_loop idx (take k (rev p)) 0 (int (length (text idx)) - 1) = (s, e)
        \<and> s \<le> e \<and> 0 \<in> set (py_slice (suffix_array idx) s (e + 1)) \<longrightarrow>
        (\<exists>res r. get_prefix_overlaps idx p m = Some res
           \<and> get_read_at_offset idx 0 = Some r \<and> (r, int k) \<in> set res))"
proof -
  have t: "text idx = txt" by (rule FMIndex_init_fields(1) [OF assms(1)])
  have wf: "offsets_in_text idx" by (rule FMIndex_init_offsets_in_text [OF assms(1)])
  have zero: "py_index (text idx) (0 - 1) = Some CHR ''$''"
    using py_index_before_zero [OF assms(2)] assms(3) by (simp add: t)
  have filt: "\<exists>r. sep_filter (text idx) js = Some r \<and> 0 \<in> set r"
    if js: "set js \<subseteq> set (suffix_array idx)" and z: "0 \<in> set js" for js
  proof -
    from js wf have "\<forall>i\<in>set js. 0 \<le> i \<and> i < int (length (text idx))"
      by (auto simp: offsets_in_text_def)
    from sep_filter_Some [OF this] obtain r where "sep_filter (text idx) js = Some r"
      and "\<forall>i\<in>set js. py_index (text idx) (i - 1) = Some CHR ''$'' \<longrightarrow> i \<in> set r"
      by blast
    with z zero show ?thesis by auto
  qed
  have sep: "\<exists>r. elements_preceeded_by_sep idx a b = Some r \<and> 0 \<in> set r"
    if "0 \<in> set (py_slice (suffix_array idx) a (b + 1))" for a b
    unfolding elements_preceeded_by_sep_def using set_py_slice that by (rule filt)
  have fs: "set (find_sub idx p) \<subseteq> set (suffix_array idx)"
    using set_py_slice [of "suffix_array idx"]
    by (auto simp: find_sub_def split: prod.splits if_splits)
  have pre: "0 \<in> set (find_sub idx p) \<longrightarrow> (\<exists>r. find_prefixes idx p = Some r \<and> 0 \<in> set r)"
    unfolding find_prefixes_def using fs by (auto intro: filt)
  have ovl: "\<exists>res r. get_prefix_overlaps idx p m = Some res
           \<and> get_read_at_offset idx 0 = Some r \<and> (r, int k) \<in> set res"
    if k: "0 < k" "m \<le> int k" "k < length p"
      and rng: "get_range_loop idx (take k (rev p)) 0 (int (length (text idx)) - 1) = (s, e)"
      and se: "s \<le> e" and z: "0 \<in> set (py_slice (suffix_array idx) s (e + 1))"
  proof -
    from sep [OF z] obtain ov where ov: "elements_preceeded_by_sep idx s e = Some ov" "0 \<in> set ov"
      by blast
    from assms(2) obtain r where r: "get_read_at_offset idx 0 = Some r"
      using get_read_at_offset_Some [of 0 idx] by (auto simp: t)
    obtain res where loop: "get_prefix_overlaps_loop idx (int (length p)) m (rev p) 0
        (int (length (text idx)) - 1) 0 [] = Some res"
      using get_prefix_overlaps_loop_Some [OF wf] by blast
    then have res: "get_prefix_overlaps idx p m = Some res"
      by (simp add: get_prefix_overlaps_def)
    from get_prefix_overlaps_loop_reports [OF r loop k(1) _ _ _ rng se ov] k
    have "(r, int k) \<in> set res" by simp
    with res r show ?thesis by blast
  qed
  from zero sep pre ovl show ?thesis by blast
qed

theorem offset_zero_counts_as_sentinel_preceded_witness:
  "FMIndex_init (count_rank 1) ''ACGTACGA$TACGAGG$'' = Some two_reads_index
   \<and> ''ACGTACGA$TACGAGG$'' \<noteq> [] \<and> last ''ACGTACGA$TACGAGG$'' = CHR ''$''
   \<and> py_index (text two_reads_index) (0 - 1) = Some CHR ''$''
   \<and> 0 \<in> set (py_slice (suffix_array two_reads_index) 3 (5 + 1))
   \<and> elements_preceeded_by_sep two_reads_index 3 5 = Some [0]
   \<and> 0 \<in> set (find_sub two_reads_index ''AC'')
   \<and> find_prefixes two_reads_index ''AC'' = Some [0]
   \<and> get_range_loop two_reads_index (take 2 (rev ''GAC'')) 0
        (int (length (text two_reads_index)) - 1) = (3, 5)
   \<and> get_read_at_offset two_reads_index 0 = Some ''ACGTACGA''
   \<and> get_prefix_overlaps two_reads_index ''GAC'' 2 = Some [(''ACGTACGA'', 2)]"
proof -
  have h1: "''ACGTACGA$TACGAGG$'' \<noteq> []" and h2: "last ''ACGTACGA$TACGAGG$'' = CHR ''$''"
    by simp_all
  have e1: "0 \<in> set (py_slice (suffix_array two_reads_index) 3 (5 + 1))" by code_simp
  have e2: "elements_preceeded_by_sep two_reads_index 3 5 = Some [0]" by code_simp
  have e3: "0 \<in> set (find_sub two_reads_index ''AC'')" by code_simp
  have e4: "find_prefixes two_reads_index ''AC'' = Some [0]" by code_simp
  have e5: "get_range_loop two_reads_index (take 2 (rev ''GAC'')) 0
        (int (length (text two_reads_index)) - 1) = (3, 5)" by code_simp
  have e6: "get_read_at_offset two_reads_index 0 = Some ''ACGTACGA''" by code_simp
  have e7: "get_prefix_overlaps two_reads_index ''GAC'' 2 = Some [(''ACGTACGA'', 2)]"
    by code_simp
  from offset_zero_counts_as_sentinel_preceded
    [OF FMIndex_init_two_reads [of "count_rank 1"] h1 h2]
  have "py_index (text two_reads_index) (0 - 1) = Some CHR ''$''" by blast
  with FMIndex_init_two_reads [of "count_rank 1"] h1 h2 e1 e2 e3 e4 e5 e6 e7
  show ?thesis by blast
qed

text \<open>
  C10.  For every index built with a rank that is monotone in the row (as a count of
  occurrences is) and every pattern, the pair returned by \<^verbatim>\<open>get_range\<close> has its start
  at or below its end, and when the pattern has no match the two are equal: the interval is
  never inverted.
\<close>

theorem get_range_never_inverted:
  assumes "FMIndex_init TRank_new txt = Some idx" and "monotone_rank (rank_cps idx)"
    and "get_range idx p = (start, en)"
  shows "start \<le> en \<and> (\<not> contains_substring idx p \<longrightarrow> start = en)"
proof -
  obtain s e where l: "get_range_loop idx (rev p) 0 (int (length (text idx)) - 1) = (s, e)"
    by (cases "get_range_loop idx (rev p) 0 (int (length (text idx)) - 1)")
  have "s \<le> e + 1" by (rule get_range_loop_bound [OF assms(2) _ l]) simp
  moreover from l assms(3) have "start = s" "en = e + 1" by (simp_all add: get_range_def)
  ultimately show ?thesis using assms(3) by (simp add: contains_substring_def)
qed

theorem get_range_never_inverted_witness:
  "FMIndex_init (count_rank 1) ''ACGTACGA$TACGAGG$'' = Some two_reads_index
   \<and> monotone_rank (rank_cps two_reads_index)
   \<and> get_range two_reads_index ''AA'' = (3, 3)
   \<and> (3::int) \<le> 3
   \<and> (contains_substring two_reads_index ''AA'' \<or> (3::int) = 3)"
proof -
  have m: "monotone_rank (rank_cps two_reads_index)" by (simp add: monotone_count_rank)
  have h: "get_range two_reads_index ''AA'' = (3, 3)"
    by code_simp
  show ?thesis
    using get_range_never_inverted [OF FMIndex_init_two_reads [of "count_rank 1"] m h]
      FMIndex_init_two_reads [of "count_rank 1"] m h
    by simp
qed

end
